theory Spec2Isabelle
  imports Main "HOL-Library.Word"
begin

section \<open>The diode of \<^verbatim>\<open>src/one_to_one.go\<close>\<close>

subsection \<open>Data model\<close>

text \<open>
  \<^verbatim>\<open>uint64\<close> is a 64-bit word: \<open>+\<close>, \<open>-\<close> wrap around, \<open>mod\<close> and \<open><\<close> are unsigned.
  \<^verbatim>\<open>GenericDataType\<close> is an \<^verbatim>\<open>unsafe.Pointer\<close>: \<open>None\<close> is \<^verbatim>\<open>nil\<close>, \<open>Some x\<close> any other
  pointer value. A slot of \<^verbatim>\<open>buffer\<close> holds a \<^verbatim>\<open>*bucket\<close>: \<open>None\<close> is the nil pointer,
  \<open>Some b\<close> a pointer to the bucket \<open>b\<close>; buckets are never mutated after \<^verbatim>\<open>Set\<close> has
  built them, so they are modelled by value.
\<close>

type_synonym uint64 = "64 word"

type_synonym 'a GenericDataType = "'a option"

record 'a bucket =
  data :: "'a GenericDataType"
  seq :: uint64

text \<open>
  The \<^verbatim>\<open>Alerter\<close> interface has one method, \<^verbatim>\<open>Alert(missed int)\<close>, called for its effect.
  The effect is a function on an outside world \<open>'w\<close>, which \<^verbatim>\<open>TryNext\<close> threads through.
  Go's \<^verbatim>\<open>int\<close> has 32 or 64 bits, depending on the platform the code is built for: it
  is the type \<open>'i word\<close>, with \<open>LENGTH('i)\<close> the width, read with \<open>sint\<close>. The conversion
  \<^verbatim>\<open>int(x)\<close> of a \<^verbatim>\<open>uint64\<close> keeps the low \<open>LENGTH('i)\<close> bits: it is \<open>ucast x\<close>. The
  record leaves the type \<open>'m\<close> of the alerter's argument open; the functions below use
  it at \<open>'m = 'i word\<close>.
\<close>

record ('a, 'm, 'w) OneToOne =
  buffer :: "'a bucket option list"
  writeIndex :: uint64
  readIndex :: uint64
  alerter :: "'m \<Rightarrow> 'w \<Rightarrow> 'w"

text \<open>The run-time panics the code can raise.\<close>

datatype panic = DivideByZero | MakeSliceLenOutOfRange

subsection \<open>Construction\<close>

text \<open>
  \<^verbatim>\<open>NewOneToOne(size int, alerter Alerter)\<close>: the value of \<^verbatim>\<open>size\<close> (here \<open>sz\<close>) fits in 64
  bits whatever the width of \<^verbatim>\<open>int\<close>; it is given as a 64-bit word and read with \<open>sint\<close>.
  A nil alerter (\<open>None\<close>) is replaced by the no-op. The function itself checks nothing:
  \<^verbatim>\<open>make([]unsafe.Pointer, size)\<close> panics on a negative length and on a length above the
  largest one that the runtime allocates. That limit belongs to the runtime and the
  machine, not to \<^verbatim>\<open>src/one_to_one.go\<close>: it is the parameter \<open>maxLen\<close>.
\<close>

definition NewOneToOne ::
  "nat \<Rightarrow> 64 word \<Rightarrow> ('i::len word \<Rightarrow> 'w \<Rightarrow> 'w) option \<Rightarrow> panic + ('a, 'i word, 'w) OneToOne" where
  "NewOneToOne maxLen sz al =
     (let al = (case al of None \<Rightarrow> (\<lambda>_ w. w) | Some f \<Rightarrow> f)
      in if sint sz < 0 \<or> maxLen < nat (sint sz) then Inl MakeSliceLenOutOfRange
         else Inr \<lparr>buffer = replicate (nat (sint sz)) None,
                   writeIndex = 0, readIndex = 0, alerter = al\<rparr>)"

subsection \<open>The writer: \<^verbatim>\<open>Set\<close>\<close>

text \<open>\<^verbatim>\<open>uint64(len(d.buffer))\<close>\<close>

definition len_buffer :: "('a, 'i::len word, 'w) OneToOne \<Rightarrow> uint64" where
  "len_buffer d = of_nat (length (buffer d))"

text \<open>
  The first statement takes \<^verbatim>\<open>d.writeIndex % uint64(len(d.buffer))\<close>, which panics when
  the length is 0, before anything is changed.
\<close>

definition Set :: "('a, 'i::len word, 'w) OneToOne \<Rightarrow> 'a GenericDataType \<Rightarrow> panic + ('a, 'i::len word, 'w) OneToOne" where
  "Set d dat =
     (if len_buffer d = 0 then Inl DivideByZero
      else
        let idx = writeIndex d mod len_buffer d;
            newBucket = \<lparr>data = dat, seq = writeIndex d\<rparr>;
            d = d\<lparr>writeIndex := writeIndex d + 1\<rparr>
        in Inr (d\<lparr>buffer := (buffer d)[unat idx := Some newBucket]\<rparr>))"

subsection \<open>The reader: \<^verbatim>\<open>TryNext\<close>\<close>

text \<open>
  The \<^verbatim>\<open>if\<close> at the head of the loop body: the catch-up and its alert,
  \<^verbatim>\<open>d.alerter.Alert(int(d.readIndex - oldReadIndex))\<close>.
\<close>

definition catch_up :: "('a, 'i::len word, 'w) OneToOne \<Rightarrow> 'w \<Rightarrow> ('a, 'i::len word, 'w) OneToOne \<times> 'w" where
  "catch_up d w =
     (if readIndex d + len_buffer d < writeIndex d then
        let oldReadIndex = readIndex d;
            d = d\<lparr>readIndex := writeIndex d - len_buffer d\<rparr>
        in (d, alerter d (ucast (readIndex d - oldReadIndex)) w)
      else (d, w))"

text \<open>
  One pass through the loop body ends in one of three ways: the slot was nil and the
  call returns \<^verbatim>\<open>(nil, false)\<close>; the bucket's \<^verbatim>\<open>seq\<close> is \<^verbatim>\<open>readIndex\<close> and the loop is left
  with \<^verbatim>\<open>result\<close> set; or the bucket is dropped, \<^verbatim>\<open>readIndex\<close> is incremented and the loop
  goes round again.
\<close>

datatype ('a, 'm, 'w) pass =
    Empty "('a, 'm, 'w) OneToOne" 'w
  | Found "('a, 'm, 'w) OneToOne" 'w "'a bucket"
  | Again "('a, 'm, 'w) OneToOne" 'w

definition TryNext_pass :: "('a, 'i::len word, 'w) OneToOne \<Rightarrow> 'w \<Rightarrow> panic + ('a, 'i::len word, 'w) pass" where
  "TryNext_pass d w =
     (let (d, w) = catch_up d w
      in if len_buffer d = 0 then Inl DivideByZero
         else
           let idx = unat (readIndex d mod len_buffer d);
               result = buffer d ! idx;
               d = d\<lparr>buffer := (buffer d)[idx := None]\<rparr>
           in case result of
                None \<Rightarrow> Inr (Empty d w)
              | Some b \<Rightarrow>
                  if seq b \<noteq> readIndex d then Inr (Again (d\<lparr>readIndex := readIndex d + 1\<rparr>) w)
                  else Inr (Found d w b))"

text \<open>The number of non-nil slots: every pass that goes round again has emptied one.\<close>

definition occupied :: "'a option list \<Rightarrow> nat" where
  "occupied xs = length (filter (\<lambda>x. x \<noteq> None) xs)"

lemma occupied_clear:
  "i < length xs \<Longrightarrow> xs ! i \<noteq> None \<Longrightarrow> occupied (xs[i := None]) < occupied xs"
proof (induction xs arbitrary: i)
  case Nil
  then show ?case by simp
next
  case (Cons x xs)
  then show ?case by (cases i) (auto simp: occupied_def)
qed

lemma unat_mod_len_less:
  fixes r :: uint64
  assumes "(of_nat n :: uint64) \<noteq> 0"
  shows "unat (r mod of_nat n) < n"
proof -
  have "unat (r mod of_nat n) < unat (of_nat n :: uint64)"
    using assms by (simp add: unat_mod unat_gt_0)
  also have "\<dots> \<le> n"
    by (simp add: unat_of_nat)
  finally show ?thesis .
qed

lemma catch_up_buffer [simp]: "buffer (fst (catch_up d w)) = buffer d"
  by (simp add: catch_up_def Let_def)

lemma catch_up_len_buffer [simp]: "len_buffer (fst (catch_up d w)) = len_buffer d"
  by (simp add: len_buffer_def)

lemma TryNext_pass_Again_occupied:
  assumes "TryNext_pass d w = Inr (Again d' w')"
  shows "occupied (buffer d') < occupied (buffer d)"
proof -
  obtain d1 w1 where c: "catch_up d w = (d1, w1)"
    by (cases "catch_up d w")
  have b1: "buffer d1 = buffer d"
    using catch_up_buffer [of d w] c by simp
  from assms c have nz: "len_buffer d1 \<noteq> 0"
    by (auto simp: TryNext_pass_def split: if_splits)
  let ?idx = "unat (readIndex d1 mod len_buffer d1)"
  have lt: "?idx < length (buffer d1)"
    using nz unat_mod_len_less [of "length (buffer d1)" "readIndex d1"]
    by (simp add: len_buffer_def)
  from assms c nz have "buffer d1 ! ?idx \<noteq> None" and "buffer d' = (buffer d1)[?idx := None]"
    by (auto simp: TryNext_pass_def Let_def split: option.splits if_splits)
  with lt b1 show ?thesis
    using occupied_clear [of ?idx "buffer d1"] by simp
qed

text \<open>
  \<^verbatim>\<open>for result == nil { ... }\<close>: the loop returns the state, the world and \<^verbatim>\<open>result\<close>
  (\<open>None\<close> when the body returned \<^verbatim>\<open>(nil, false)\<close>).
\<close>

function TryNext_loop ::
  "('a, 'i::len word, 'w) OneToOne \<Rightarrow> 'w \<Rightarrow> panic + (('a, 'i::len word, 'w) OneToOne \<times> 'w \<times> 'a bucket option)" where
  "TryNext_loop d w =
     (case TryNext_pass d w of
        Inl e \<Rightarrow> Inl e
      | Inr (Empty d' w') \<Rightarrow> Inr (d', w', None)
      | Inr (Found d' w' b) \<Rightarrow> Inr (d', w', Some b)
      | Inr (Again d' w') \<Rightarrow> TryNext_loop d' w')"
  by pat_completeness auto
termination
  by (relation "measure (\<lambda>(d, w). occupied (buffer d))")
     (auto dest: TryNext_pass_Again_occupied)

text \<open>The number of passes through the loop body that a call makes.\<close>

function TryNext_passes :: "('a, 'i::len word, 'w) OneToOne \<Rightarrow> 'w \<Rightarrow> nat" where
  "TryNext_passes d w =
     (case TryNext_pass d w of
        Inr (Again d' w') \<Rightarrow> Suc (TryNext_passes d' w')
      | _ \<Rightarrow> 1)"
  by pat_completeness auto
termination
  by (relation "measure (\<lambda>(d, w). occupied (buffer d))")
     (auto dest: TryNext_pass_Again_occupied)

text \<open>
  Both equations hold for every argument and would rewrite for ever as simplification
  rules: they are applied at a chosen state, one pass at a time.
\<close>

declare TryNext_loop.simps [simp del] TryNext_passes.simps [simp del]

text \<open>After the loop: \<^verbatim>\<open>d.readIndex++; return result.data, true\<close>.\<close>

definition TryNext ::
  "('a, 'i::len word, 'w) OneToOne \<Rightarrow> 'w \<Rightarrow>
     panic + (('a, 'i::len word, 'w) OneToOne \<times> 'w \<times> ('a GenericDataType \<times> bool))" where
  "TryNext d w =
     (case TryNext_loop d w of
        Inl e \<Rightarrow> Inl e
      | Inr (d', w', None) \<Rightarrow> Inr (d', w', (None, False))
      | Inr (d', w', Some b) \<Rightarrow> Inr (d'\<lparr>readIndex := readIndex d' + 1\<rparr>, w', (data b, True)))"

subsection \<open>Sequences of calls\<close>

text \<open>
  A single reader and a single writer, each call run to its end before the next starts:
  a finite sequence of \<^verbatim>\<open>Set\<close> and \<^verbatim>\<open>TryNext\<close> calls on one diode. \<open>run\<close> stops at the
  first panic; otherwise it returns the final diode, the final world and what each
  \<^verbatim>\<open>TryNext\<close> returned, in order.
\<close>

datatype 'a op = OpSet "'a GenericDataType" | OpTryNext

fun run ::
  "'a op list \<Rightarrow> ('a, 'i::len word, 'w) OneToOne \<Rightarrow> 'w \<Rightarrow>
     panic + (('a, 'i::len word, 'w) OneToOne \<times> 'w \<times> ('a GenericDataType \<times> bool) list)" where
  "run [] d w = Inr (d, w, [])"
| "run (OpSet v # ops) d w =
     (case Set d v of
        Inl e \<Rightarrow> Inl e
      | Inr d' \<Rightarrow> run ops d' w)"
| "run (OpTryNext # ops) d w =
     (case TryNext d w of
        Inl e \<Rightarrow> Inl e
      | Inr (d', w', res) \<Rightarrow>
          (case run ops d' w' of
             Inl e \<Rightarrow> Inl e
           | Inr (d'', w'', outs) \<Rightarrow> Inr (d'', w'', res # outs)))"

text \<open>
  The values passed to \<^verbatim>\<open>Set\<close> by a sequence of calls, in order, and the values that
  the successful \<^verbatim>\<open>TryNext\<close> calls returned, in order.
\<close>

fun sets_of :: "'a op list \<Rightarrow> 'a GenericDataType list" where
  "sets_of [] = []"
| "sets_of (OpSet v # ops) = v # sets_of ops"
| "sets_of (OpTryNext # ops) = sets_of ops"

definition delivered :: "('a GenericDataType \<times> bool) list \<Rightarrow> 'a GenericDataType list" where
  "delivered outs = map fst (filter snd outs)"

text \<open>
  The specification's "writer never more than capacity ahead of the reader", read off
  the calls alone: \<open>p\<close> counts the values written and not yet read; a \<^verbatim>\<open>Set\<close> needs
  \<open>p < c\<close>, a \<^verbatim>\<open>TryNext\<close> takes one value when there is one. \<open>pending p ops\<close> is the
  count left after the calls.
\<close>

fun no_overwrite :: "nat \<Rightarrow> nat \<Rightarrow> 'a op list \<Rightarrow> bool" where
  "no_overwrite c p [] = True"
| "no_overwrite c p (OpSet v # ops) = (p < c \<and> no_overwrite c (Suc p) ops)"
| "no_overwrite c p (OpTryNext # ops) = no_overwrite c (p - 1) ops"

fun pending :: "nat \<Rightarrow> 'a op list \<Rightarrow> nat" where
  "pending p [] = p"
| "pending p (OpSet v # ops) = pending (Suc p) ops"
| "pending p (OpTryNext # ops) = pending (p - 1) ops"

subsection \<open>The invariant of sequential use\<close>

text \<open>
  \<open>diode_inv c vs r d\<close>: the diode \<open>d\<close> has capacity \<open>c\<close>, the values \<open>vs\<close> have been
  written so far, the read cursor stands at \<open>r\<close>, and no cursor has wrapped. A non-nil
  slot holds the latest write to it, which the reader has not passed; every write the
  reader has not passed and that has not been overwritten is still in its slot.
\<close>

definition slot_ok :: "nat \<Rightarrow> 'a GenericDataType list \<Rightarrow> nat \<Rightarrow> nat \<Rightarrow> 'a bucket option \<Rightarrow> bool" where
  "slot_ok c vs r i x =
     (case x of
        None \<Rightarrow> True
      | Some b \<Rightarrow>
          (let s = unat (seq b)
           in s mod c = i \<and> r \<le> s \<and> s < length vs \<and> length vs \<le> s + c \<and> data b = vs ! s))"

definition diode_inv ::
  "nat \<Rightarrow> 'a GenericDataType list \<Rightarrow> nat \<Rightarrow> ('a, 'i::len word, 'w) OneToOne \<Rightarrow> bool" where
  "diode_inv c vs r d \<longleftrightarrow>
     0 < c \<and> length (buffer d) = c \<and> length vs + c < 2 ^ 64 \<and> r \<le> length vs \<and>
     writeIndex d = of_nat (length vs) \<and> readIndex d = of_nat r \<and>
     (\<forall>i<c. slot_ok c vs r i (buffer d ! i)) \<and>
     (\<forall>s. r \<le> s \<longrightarrow> s < length vs \<longrightarrow> length vs \<le> s + c \<longrightarrow> buffer d ! (s mod c) \<noteq> None)"

text \<open>
  \<open>sets_inv c vs d\<close>: the values \<open>vs\<close> have been written to the diode \<open>d\<close> of capacity
  \<open>c\<close> and nothing has been read. \<^verbatim>\<open>writeIndex\<close> has not wrapped, and each of the last \<open>c\<close>
  writes is in its slot.
\<close>

definition sets_inv :: "nat \<Rightarrow> 'a GenericDataType list \<Rightarrow> ('a, 'i::len word, 'w) OneToOne \<Rightarrow> bool" where
  "sets_inv c vs d \<longleftrightarrow>
     0 < c \<and> c < 2 ^ 64 \<and> length (buffer d) = c \<and> length vs < 2 ^ 64 \<and>
     writeIndex d = of_nat (length vs) \<and> readIndex d = 0 \<and>
     (\<forall>s. s < length vs \<longrightarrow> length vs \<le> s + c \<longrightarrow>
        buffer d ! (s mod c) = Some \<lparr>data = vs ! s, seq = of_nat s\<rparr>)"

subsection \<open>Example diodes and call sequences\<close>

text \<open>
  An alerter that keeps the log of its calls: the world is the list of the \<^verbatim>\<open>int\<close> values
  it was called with, on either platform.
\<close>

definition log_alert :: "'i::len word \<Rightarrow> int list \<Rightarrow> int list" where
  "log_alert missed log = log @ [sint missed]"

text \<open>
  The diodes that \<^verbatim>\<open>NewOneToOne\<close> builds for the sizes 0 and 4, and the scenario of the
  specification on capacity 4: five values written before the first read
  (\<open>diode4_full\<close>), then read until nothing is left (\<open>diode4_drained\<close>).
\<close>

definition diode0 :: "(nat, 64 word, int list) OneToOne" where
  "diode0 = \<lparr>buffer = [], writeIndex = 0, readIndex = 0, alerter = log_alert\<rparr>"

definition diode4 :: "(nat, 64 word, int list) OneToOne" where
  "diode4 = \<lparr>buffer = [None, None, None, None], writeIndex = 0, readIndex = 0,
              alerter = log_alert\<rparr>"

definition five_values :: "nat GenericDataType list" where
  "five_values = [Some 10, Some 11, Some 12, Some 13, Some 14]"

definition five_sets :: "nat op list" where
  "five_sets = [OpSet (Some 10), OpSet (Some 11), OpSet (Some 12), OpSet (Some 13), OpSet (Some 14)]"

definition four_sets :: "nat op list" where
  "four_sets = [OpSet (Some 10), OpSet (Some 11), OpSet (Some 12), OpSet (Some 13)]"

definition diode4_full :: "(nat, 64 word, int list) OneToOne" where
  "diode4_full =
     \<lparr>buffer = [Some \<lparr>data = Some 14, seq = 4\<rparr>, Some \<lparr>data = Some 11, seq = 1\<rparr>,
                Some \<lparr>data = Some 12, seq = 2\<rparr>, Some \<lparr>data = Some 13, seq = 3\<rparr>],
      writeIndex = 5, readIndex = 0, alerter = log_alert\<rparr>"

definition diode4_drained :: "(nat, 64 word, int list) OneToOne" where
  "diode4_drained =
     \<lparr>buffer = [None, None, None, None], writeIndex = 5, readIndex = 5, alerter = log_alert\<rparr>"

text \<open>
  A state that no sequence of whole calls reaches: slot 1 holds a bucket whose \<^verbatim>\<open>seq\<close> is
  not the \<^verbatim>\<open>readIndex\<close>, as after a write that raced with the read.
\<close>

definition diode4_stale :: "(nat, 64 word, int list) OneToOne" where
  "diode4_stale =
     \<lparr>buffer = [Some \<lparr>data = Some 14, seq = 4\<rparr>, Some \<lparr>data = Some 11, seq = 9\<rparr>,
                Some \<lparr>data = Some 12, seq = 2\<rparr>, Some \<lparr>data = Some 13, seq = 3\<rparr>],
      writeIndex = 5, readIndex = 1, alerter = log_alert\<rparr>"

text \<open>
  The diodes of capacity 1, and sequences of calls that take their cursors round the
  64-bit range: \<open>rounds n v\<close> is \<open>n\<close> times one write of \<open>v\<close> and one read.
\<close>

definition one_slot :: "nat bucket option \<Rightarrow> uint64 \<Rightarrow> uint64 \<Rightarrow> (nat, 64 word, int list) OneToOne" where
  "one_slot x wi ri = \<lparr>buffer = [x], writeIndex = wi, readIndex = ri, alerter = log_alert\<rparr>"

text \<open>The same diode where \<^verbatim>\<open>int\<close> has 32 bits.\<close>

definition one_slot32 ::
  "nat bucket option \<Rightarrow> uint64 \<Rightarrow> uint64 \<Rightarrow> (nat, 32 word, int list) OneToOne" where
  "one_slot32 x wi ri = \<lparr>buffer = [x], writeIndex = wi, readIndex = ri, alerter = log_alert\<rparr>"

definition rounds :: "nat \<Rightarrow> 'a GenericDataType \<Rightarrow> 'a op list" where
  "rounds n v = concat (replicate n [OpSet v, OpTryNext])"

definition wrap_calls :: "nat op list" where
  "wrap_calls = rounds (2 ^ 64 - 1) (Some 7) @ [OpTryNext, OpSet (Some 8), OpTryNext, OpTryNext]"

definition wrap_outs :: "(nat GenericDataType \<times> bool) list" where
  "wrap_outs = replicate (2 ^ 64 - 1) (Some 7, True) @ [(None, False), (None, False), (None, False)]"

section \<open>Lemmas\<close>

subsection \<open>Arithmetic of the cursors\<close>

lemma u64_unat_of_nat: "n < 2 ^ 64 \<Longrightarrow> unat (of_nat n :: uint64) = n"
  by (simp add: unat_of_nat)

lemma u64_less_iff:
  "a < 2 ^ 64 \<Longrightarrow> b < 2 ^ 64 \<Longrightarrow> (of_nat a :: uint64) < of_nat b \<longleftrightarrow> a < b"
  by (simp add: word_less_nat_alt u64_unat_of_nat)

lemma u64_le_iff:
  "a < 2 ^ 64 \<Longrightarrow> b < 2 ^ 64 \<Longrightarrow> (of_nat a :: uint64) \<le> of_nat b \<longleftrightarrow> a \<le> b"
  by (simp add: word_le_nat_alt u64_unat_of_nat)

lemma u64_eq_iff:
  "a < 2 ^ 64 \<Longrightarrow> b < 2 ^ 64 \<Longrightarrow> (of_nat a :: uint64) = of_nat b \<longleftrightarrow> a = b"
  by (metis u64_unat_of_nat)

lemma u64_mod:
  "a < 2 ^ 64 \<Longrightarrow> b < 2 ^ 64 \<Longrightarrow> unat ((of_nat a :: uint64) mod of_nat b) = a mod b"
  by (simp add: unat_mod u64_unat_of_nat)

lemma u64_nonzero: "0 < c \<Longrightarrow> c < 2 ^ 64 \<Longrightarrow> (of_nat c :: uint64) \<noteq> 0"
  using u64_eq_iff [of c 0] by simp

text \<open>
  The conversion to \<^verbatim>\<open>int\<close>: a count below \<open>2 ^ (LENGTH('i) - 1)\<close> is converted to itself.
\<close>

lemma go_int_of_nat:
  assumes "k < 2 ^ (LENGTH('i::len) - 1)"
  shows "sint (of_nat k :: 'i word) = int k"
proof -
  have "int k < 2 ^ (LENGTH('i) - 1)"
    using assms by (metis of_nat_less_iff of_nat_numeral of_nat_power)
  moreover have "- (2 ^ (LENGTH('i) - 1)) \<le> int k"
    by (smt (verit) zero_le_power of_nat_0_le_iff)
  ultimately have "signed_take_bit (LENGTH('i) - 1) (int k) = int k"
    by (rule signed_take_bit_int_eq_self [rotated])
  then show ?thesis
    by (simp add: signed_of_nat)
qed

lemma go_int_ucast_of_nat:
  assumes "LENGTH('i::len) \<le> 64"
  shows "(ucast (of_nat k :: uint64) :: 'i word) = of_nat k"
  using assms by (intro bit_word_eqI) (auto simp add: bit_simps)

lemma go_int_bound:
  assumes "LENGTH('i::len) \<le> 64" "k < 2 ^ (LENGTH('i) - 1)"
  shows "k < (2 :: nat) ^ 63"
proof -
  have "(2 :: nat) ^ (LENGTH('i) - 1) \<le> 2 ^ 63"
    using assms(1) by (intro power_increasing) simp_all
  with assms(2) show ?thesis by simp
qed

text \<open>
  The numerals at the end of the range.
\<close>

lemma u64_wrap:
  "(18446744073709551616 :: uint64) = 0"
  "(18446744073709551615 :: uint64) = - 1"
  "(18446744073709551614 :: uint64) = - 2"
  by simp_all

lemma mod_distinct:
  fixes a b c :: nat
  assumes "a < b" "b < a + c"
  shows "a mod c \<noteq> b mod c"
proof
  assume "a mod c = b mod c"
  then have "c dvd b - a"
    using assms(1) by (metis mod_eq_dvd_iff_nat less_imp_le_nat)
  moreover have "0 < b - a" "b - a < c"
    using assms by simp_all
  ultimately show False
    using nat_dvd_not_less by blast
qed

subsection \<open>Facts that hold in every state\<close>

lemma idx_in_bounds:
  "len_buffer d \<noteq> 0 \<Longrightarrow> unat (x mod len_buffer d) < length (buffer d)"
  unfolding len_buffer_def by (rule unat_mod_len_less)

lemma Set_Inr:
  assumes "len_buffer d \<noteq> 0"
  shows "Set d v = Inr (d\<lparr>writeIndex := writeIndex d + 1,
           buffer := (buffer d)[unat (writeIndex d mod len_buffer d) :=
                                  Some \<lparr>data = v, seq = writeIndex d\<rparr>]\<rparr>)"
  using assms by (simp add: Set_def Let_def len_buffer_def)

lemma Set_zero: "len_buffer d = 0 \<Longrightarrow> Set d v = Inl DivideByZero"
  by (simp add: Set_def)

lemma Set_frame:
  assumes "Set d v = Inr d'"
  shows "length (buffer d') = length (buffer d)" "alerter d' = alerter d"
    "readIndex d' = readIndex d" "writeIndex d' = writeIndex d + 1" "len_buffer d' = len_buffer d"
  using assms by (auto simp: Set_def Let_def len_buffer_def split: if_splits)

lemma catch_up_alerter [simp]: "alerter (fst (catch_up d w)) = alerter d"
  by (simp add: catch_up_def Let_def)

lemma catch_up_writeIndex [simp]: "writeIndex (fst (catch_up d w)) = writeIndex d"
  by (simp add: catch_up_def Let_def)

lemma catch_up_idem:
  assumes "catch_up d w = (d1, w1)"
  shows "catch_up d1 w1 = (d1, w1)"
proof (cases "readIndex d + len_buffer d < writeIndex d")
  case True
  with assms have d1: "d1 = d\<lparr>readIndex := writeIndex d - len_buffer d\<rparr>"
    by (auto simp: catch_up_def Let_def)
  then have "readIndex d1 + len_buffer d1 = writeIndex d1"
    by (simp add: len_buffer_def)
  then show ?thesis
    by (simp add: catch_up_def)
next
  case False
  with assms show ?thesis
    by (auto simp: catch_up_def)
qed

lemma catch_up_caught_up:
  assumes "catch_up d w = (d1, w1)"
  shows "\<not> readIndex d1 + len_buffer d1 < writeIndex d1"
proof (cases "readIndex d + len_buffer d < writeIndex d")
  case True
  with assms have "d1 = d\<lparr>readIndex := writeIndex d - len_buffer d\<rparr>"
    by (auto simp: catch_up_def Let_def)
  then have "readIndex d1 + len_buffer d1 = writeIndex d1"
    by (simp add: len_buffer_def)
  then show ?thesis by simp
next
  case False
  with assms show ?thesis by (auto simp: catch_up_def)
qed

lemma TryNext_pass_zero: "len_buffer d = 0 \<Longrightarrow> TryNext_pass d w = Inl DivideByZero"
  by (simp add: TryNext_pass_def split_def)

lemma TryNext_zero: "len_buffer d = 0 \<Longrightarrow> TryNext d w = Inl DivideByZero"
  by (simp add: TryNext_def TryNext_loop.simps [of d w] TryNext_pass_zero)

lemma TryNext_pass_after_catch_up:
  assumes "catch_up d w = (d1, w1)"
  shows "TryNext_pass d w = TryNext_pass d1 w1"
  using assms catch_up_idem [OF assms] by (simp add: TryNext_pass_def)

lemma TryNext_after_catch_up:
  assumes "catch_up d w = (d1, w1)"
  shows "TryNext d w = TryNext d1 w1" "TryNext_passes d w = TryNext_passes d1 w1"
  using TryNext_pass_after_catch_up [OF assms]
  by (simp_all add: TryNext_def TryNext_loop.simps [of d w] TryNext_loop.simps [of d1 w1]
      TryNext_passes.simps [of d w] TryNext_passes.simps [of d1 w1])

text \<open>
  What one pass does: the three ways it can end.
\<close>

lemma TryNext_pass_cases:
  assumes "len_buffer d \<noteq> 0" and cu: "catch_up d w = (d1, w1)"
  defines "idx \<equiv> unat (readIndex d1 mod len_buffer d1)"
  shows "TryNext_pass d w =
           (case buffer d1 ! idx of
              None \<Rightarrow> Inr (Empty (d1\<lparr>buffer := (buffer d1)[idx := None]\<rparr>) w1)
            | Some b \<Rightarrow>
                if seq b \<noteq> readIndex d1
                then Inr (Again (d1\<lparr>buffer := (buffer d1)[idx := None],
                                    readIndex := readIndex d1 + 1\<rparr>) w1)
                else Inr (Found (d1\<lparr>buffer := (buffer d1)[idx := None]\<rparr>) w1 b))"
proof -
  have "len_buffer d1 \<noteq> 0"
    using assms(1) catch_up_len_buffer [of d w] cu by simp
  then show ?thesis
    using cu by (simp add: TryNext_pass_def Let_def idx_def split: option.splits)
qed

lemma TryNext_pass_frame:
  assumes "len_buffer d \<noteq> 0"
  shows "\<exists>p. TryNext_pass d w = Inr p \<and>
           (case p of
              Empty d' w' \<Rightarrow> length (buffer d') = length (buffer d) \<and> alerter d' = alerter d \<and>
                writeIndex d' = writeIndex d
            | Found d' w' b \<Rightarrow> length (buffer d') = length (buffer d) \<and> alerter d' = alerter d \<and>
                writeIndex d' = writeIndex d \<and> Some b \<in> set (buffer d) \<and> seq b = readIndex d'
            | Again d' w' \<Rightarrow> length (buffer d') = length (buffer d) \<and> alerter d' = alerter d \<and>
                writeIndex d' = writeIndex d \<and> set (buffer d') \<subseteq> insert None (set (buffer d)))"
proof -
  obtain d1 w1 where cu: "catch_up d w = (d1, w1)"
    by (cases "catch_up d w")
  have d1: "buffer d1 = buffer d" "alerter d1 = alerter d" "writeIndex d1 = writeIndex d"
    "len_buffer d1 = len_buffer d"
    using catch_up_buffer [of d w] catch_up_alerter [of d w] catch_up_writeIndex [of d w]
      catch_up_len_buffer [of d w] cu by simp_all
  let ?idx = "unat (readIndex d1 mod len_buffer d1)"
  have lt: "?idx < length (buffer d)"
    using idx_in_bounds [OF assms, of "readIndex d1"] d1 by simp
  show ?thesis
  proof (cases "buffer d ! ?idx")
    case None
    then show ?thesis
      using TryNext_pass_cases [OF assms cu] d1 by simp
  next
    case (Some b)
    then have "Some b \<in> set (buffer d)"
      using lt by (metis nth_mem)
    then show ?thesis
      using TryNext_pass_cases [OF assms cu] d1 Some
        set_update_subset_insert [of "buffer d" ?idx None]
      by simp
  qed
qed

lemma TryNext_loop_total:
  "len_buffer d \<noteq> 0 \<Longrightarrow>
     \<exists>dl wl res. TryNext_loop d w = Inr (dl, wl, res) \<and>
       length (buffer dl) = length (buffer d) \<and> alerter dl = alerter d \<and>
       writeIndex dl = writeIndex d \<and>
       (\<forall>b. res = Some b \<longrightarrow> Some b \<in> set (buffer d) \<and> seq b = readIndex dl)"
proof (induction d w rule: TryNext_loop.induct)
  case (1 d w)
  from TryNext_pass_frame [OF "1.prems", of w] obtain p where
    p: "TryNext_pass d w = Inr p" and
    f: "case p of
              Empty d' w' \<Rightarrow> length (buffer d') = length (buffer d) \<and> alerter d' = alerter d \<and>
                writeIndex d' = writeIndex d
            | Found d' w' b \<Rightarrow> length (buffer d') = length (buffer d) \<and> alerter d' = alerter d \<and>
                writeIndex d' = writeIndex d \<and> Some b \<in> set (buffer d) \<and> seq b = readIndex d'
            | Again d' w' \<Rightarrow> length (buffer d') = length (buffer d) \<and> alerter d' = alerter d \<and>
                writeIndex d' = writeIndex d \<and> set (buffer d') \<subseteq> insert None (set (buffer d))"
    by blast
  show ?case
  proof (cases p)
    case (Empty d' w')
    with p f show ?thesis by (simp add: TryNext_loop.simps [of d w])
  next
    case (Found d' w' b)
    with p f show ?thesis by (simp add: TryNext_loop.simps [of d w])
  next
    case (Again d' w')
    with f have l: "len_buffer d' \<noteq> 0"
      using "1.prems" by (simp add: len_buffer_def)
    from "1.IH" [OF p Again l] obtain dl wl res where
      r: "TryNext_loop d' w' = Inr (dl, wl, res)" "length (buffer dl) = length (buffer d')"
        "alerter dl = alerter d'" "writeIndex dl = writeIndex d'"
        "\<forall>b. res = Some b \<longrightarrow> Some b \<in> set (buffer d') \<and> seq b = readIndex dl"
      by blast
    have "TryNext_loop d w = Inr (dl, wl, res)"
      using p Again r(1) by (simp add: TryNext_loop.simps [of d w])
    moreover have "\<forall>b. res = Some b \<longrightarrow> Some b \<in> set (buffer d) \<and> seq b = readIndex dl"
      using r(5) f Again by auto
    ultimately show ?thesis
      using r f Again by simp
  qed
qed

lemma TryNext_total:
  assumes "len_buffer d \<noteq> 0"
  shows "\<exists>d' w' res. TryNext d w = Inr (d', w', res) \<and>
           length (buffer d') = length (buffer d) \<and> alerter d' = alerter d \<and>
           writeIndex d' = writeIndex d"
proof -
  from TryNext_loop_total [OF assms, of w] obtain dl wl res where
    "TryNext_loop d w = Inr (dl, wl, res)" "length (buffer dl) = length (buffer d)"
    "alerter dl = alerter d" "writeIndex dl = writeIndex d"
    by blast
  then show ?thesis
    by (cases res) (auto simp: TryNext_def)
qed

lemma TryNext_passes_bound: "TryNext_passes d w \<le> occupied (buffer d) + 1"
proof (induction d w rule: TryNext_passes.induct)
  case (1 d w)
  show ?case
  proof (cases "TryNext_pass d w")
    case (Inl e)
    then show ?thesis by (simp add: TryNext_passes.simps [of d w])
  next
    case (Inr p)
    show ?thesis
    proof (cases p)
      case (Again d' w')
      with Inr have a: "TryNext_pass d w = Inr (Again d' w')" by simp
      from "1.IH" [OF Inr Again] TryNext_pass_Again_occupied [OF a] a show ?thesis
        by (simp add: TryNext_passes.simps [of d w])
    qed (use Inr in \<open>simp_all add: TryNext_passes.simps [of d w]\<close>)
  qed
qed

lemma occupied_le_length: "occupied xs \<le> length xs"
  by (simp add: occupied_def)

lemma TryNext_drained:
  assumes "len_buffer d \<noteq> 0" "\<not> readIndex d + len_buffer d < writeIndex d"
    "buffer d ! unat (readIndex d mod len_buffer d) = None"
  shows "TryNext d w = Inr (d, w, (None, False))"
proof -
  have cu: "catch_up d w = (d, w)"
    using assms(2) by (simp add: catch_up_def)
  have "(buffer d)[unat (readIndex d mod len_buffer d) := None] = buffer d"
    using assms(3) by (metis list_update_id)
  then have "TryNext_pass d w = Inr (Empty d w)"
    using TryNext_pass_cases [OF assms(1) cu] assms(3) by simp
  then show ?thesis
    by (simp add: TryNext_def TryNext_loop.simps [of d w])
qed

lemma TryNext_loop_None:
  "TryNext_loop d w = Inr (dl, wl, None) \<Longrightarrow>
     len_buffer dl \<noteq> 0 \<and> \<not> readIndex dl + len_buffer dl < writeIndex dl \<and>
     buffer dl ! unat (readIndex dl mod len_buffer dl) = None"
proof (induction d w rule: TryNext_loop.induct)
  case (1 d w)
  obtain d1 w1 where cu: "catch_up d w = (d1, w1)"
    by (cases "catch_up d w")
  from "1.prems" have nz: "len_buffer d \<noteq> 0"
    using TryNext_pass_zero [of d w] by (auto simp: TryNext_loop.simps [of d w])
  let ?idx = "unat (readIndex d1 mod len_buffer d1)"
  note pc = TryNext_pass_cases [OF nz cu]
  have nz1: "len_buffer d1 \<noteq> 0"
    using nz catch_up_len_buffer [of d w] cu by simp
  have lt: "?idx < length (buffer d1)"
    using idx_in_bounds [OF nz1] .
  show ?case
  proof (cases "buffer d1 ! ?idx")
    case None
    with pc "1.prems" have "dl = d1\<lparr>buffer := (buffer d1)[?idx := None]\<rparr>"
      by (simp add: TryNext_loop.simps [of d w])
    then show ?thesis
      using catch_up_caught_up [OF cu] nz1 lt by (simp add: len_buffer_def)
  next
    case (Some b)
    show ?thesis
    proof (cases "seq b = readIndex d1")
      case True
      with pc Some "1.prems" show ?thesis
        by (simp add: TryNext_loop.simps [of d w])
    next
      case False
      let ?d' = "d1\<lparr>buffer := (buffer d1)[?idx := None], readIndex := readIndex d1 + 1\<rparr>"
      from pc Some False have p: "TryNext_pass d w = Inr (Again ?d' w1)" by simp
      with "1.prems" have "TryNext_loop ?d' w1 = Inr (dl, wl, None)"
        by (simp add: TryNext_loop.simps [of d w])
      from "1.IH" [OF p refl this] show ?thesis .
    qed
  qed
qed

text \<open>
  A call of \<^verbatim>\<open>TryNext\<close> writes nothing but nil into the buffer: a slot that is nil stays
  nil.
\<close>

lemma TryNext_pass_keeps_nil:
  assumes "TryNext_pass d w = Inr p" "buffer d ! i = None"
  shows "case p of
           Empty d' w' \<Rightarrow> buffer d' ! i = None
         | Found d' w' b \<Rightarrow> buffer d' ! i = None
         | Again d' w' \<Rightarrow> buffer d' ! i = None"
proof -
  obtain d1 w1 where cu: "catch_up d w = (d1, w1)"
    by (cases "catch_up d w")
  from assms(1) have nz: "len_buffer d \<noteq> 0"
    using TryNext_pass_zero [of d w] by auto
  have d1: "buffer d1 = buffer d" "len_buffer d1 = len_buffer d"
    using catch_up_buffer [of d w] catch_up_len_buffer [of d w] cu by simp_all
  let ?idx = "unat (readIndex d1 mod len_buffer d1)"
  have lt: "?idx < length (buffer d)"
    using idx_in_bounds [OF nz, of "readIndex d1"] d1 by simp
  have n: "(buffer d)[?idx := None] ! i = None"
    using assms(2) lt by (simp add: nth_list_update)
  show ?thesis
  proof (cases "buffer d ! ?idx")
    case None
    then show ?thesis
      using TryNext_pass_cases [OF nz cu] d1 assms(1) n by auto
  next
    case (Some b)
    then show ?thesis
      using TryNext_pass_cases [OF nz cu] d1 assms(1) n by (auto split: if_splits)
  qed
qed

lemma TryNext_loop_keeps_nil:
  "TryNext_loop d w = Inr (dl, wl, res) \<Longrightarrow> buffer d ! i = None \<Longrightarrow> buffer dl ! i = None"
proof (induction d w rule: TryNext_loop.induct)
  case (1 d w)
  from "1.prems"(1) obtain p where p: "TryNext_pass d w = Inr p"
    by (cases "TryNext_pass d w") (simp_all add: TryNext_loop.simps [of d w])
  note k = TryNext_pass_keeps_nil [OF p "1.prems"(2)]
  show ?case
  proof (cases p)
    case (Empty d' w')
    with p k "1.prems"(1) show ?thesis by (simp add: TryNext_loop.simps [of d w])
  next
    case (Found d' w' b)
    with p k "1.prems"(1) show ?thesis by (simp add: TryNext_loop.simps [of d w])
  next
    case (Again d' w')
    with p "1.prems"(1) have l: "TryNext_loop d' w' = Inr (dl, wl, res)"
      by (simp add: TryNext_loop.simps [of d w])
    from k Again have "buffer d' ! i = None" by simp
    from "1.IH" [OF p Again l this] show ?thesis .
  qed
qed

lemma TryNext_keeps_nil:
  assumes "TryNext d w = Inr (d', w', res)" "buffer d ! i = None"
  shows "buffer d' ! i = None"
proof (cases "TryNext_loop d w")
  case (Inl e)
  with assms(1) show ?thesis by (simp add: TryNext_def)
next
  case (Inr r)
  obtain dl wl b where r: "r = (dl, wl, b)" by (cases r)
  from TryNext_loop_keeps_nil [OF Inr [unfolded r] assms(2)] have "buffer dl ! i = None" .
  with assms(1) Inr r show ?thesis
    by (cases b) (auto simp: TryNext_def)
qed

text \<open>
  A pass that drops a bucket: the call goes on from the state with the slot cleared and
  \<^verbatim>\<open>readIndex\<close> one further.
\<close>

lemma TryNext_stale:
  assumes "len_buffer d \<noteq> 0" "catch_up d w = (d1, w1)"
    "buffer d1 ! unat (readIndex d1 mod len_buffer d1) = Some b" "seq b \<noteq> readIndex d1"
  shows "TryNext d w =
           TryNext (d1\<lparr>buffer := (buffer d1)[unat (readIndex d1 mod len_buffer d1) := None],
                       readIndex := readIndex d1 + 1\<rparr>) w1"
proof -
  let ?d2 = "d1\<lparr>buffer := (buffer d1)[unat (readIndex d1 mod len_buffer d1) := None],
                readIndex := readIndex d1 + 1\<rparr>"
  have "TryNext_pass d w = Inr (Again ?d2 w1)"
    using TryNext_pass_cases [OF assms(1,2)] assms(3,4) by simp
  then have "TryNext_loop d w = TryNext_loop ?d2 w1"
    by (simp add: TryNext_loop.simps [of d w])
  then show ?thesis
    by (simp add: TryNext_def)
qed

lemma NewOneToOne_Inr:
  assumes "NewOneToOne ml sz al = Inr d"
  shows "0 \<le> sint sz" "buffer d = replicate (nat (sint sz)) None" "writeIndex d = 0"
    "readIndex d = 0" "len_buffer d = sz"
    "alerter d = (case al of None \<Rightarrow> (\<lambda>_ w. w) | Some f \<Rightarrow> f)"
    "nat (sint sz) \<le> ml"
proof -
  from assms show p: "0 \<le> sint sz" and b: "buffer d = replicate (nat (sint sz)) None"
    and "writeIndex d = 0" "readIndex d = 0"
    and "alerter d = (case al of None \<Rightarrow> (\<lambda>_ w. w) | Some f \<Rightarrow> f)"
    and "nat (sint sz) \<le> ml"
    by (auto simp: NewOneToOne_def Let_def split: if_splits)
  have "(of_nat (nat (sint sz)) :: uint64) = of_int (sint sz)"
    using p by simp
  then show "len_buffer d = sz"
    using b by (simp add: len_buffer_def)
qed

lemma NewOneToOne_length_bound:
  assumes "NewOneToOne ml sz al = Inr d0"
  shows "length (buffer d0) < 2 ^ 63"
proof -
  have "sint sz < 2 ^ 63"
    using sint_lt [of sz] by simp
  then show ?thesis
    using NewOneToOne_Inr(1,2) [OF assms] by simp
qed

subsection \<open>Sequences of calls, in every state\<close>

lemma run_zero:
  assumes "len_buffer d = 0" "run ops d w = Inr (d', w', outs)"
  shows "ops = [] \<and> d' = d \<and> w' = w \<and> outs = []"
proof (cases ops)
  case Nil
  with assms show ?thesis by simp
next
  case (Cons x xs)
  with assms show ?thesis
    by (cases x) (simp_all add: Set_zero TryNext_zero)
qed

lemma run_total:
  "len_buffer d \<noteq> 0 \<Longrightarrow>
     \<exists>d' w' outs. run ops d w = Inr (d', w', outs) \<and> length (buffer d') = length (buffer d) \<and>
       alerter d' = alerter d"
proof (induction ops arbitrary: d w)
  case Nil
  then show ?case by simp
next
  case (Cons x ops)
  show ?case
  proof (cases x)
    case (OpSet v)
    from Set_Inr [OF Cons.prems, of v] obtain d1 where s: "Set d v = Inr d1" by blast
    from Cons.IH [of d1 w] Set_frame [OF s] Cons.prems s OpSet show ?thesis
      by auto
  next
    case OpTryNext
    from TryNext_total [OF Cons.prems, of w] obtain d1 w1 res where
      t: "TryNext d w = Inr (d1, w1, res)" "length (buffer d1) = length (buffer d)"
        "alerter d1 = alerter d"
      by blast
    then have "len_buffer d1 \<noteq> 0"
      using Cons.prems by (simp add: len_buffer_def)
    from Cons.IH [OF this, of w1] t OpTryNext show ?thesis
      by auto
  qed
qed

lemma run_append:
  "run (xs @ ys) d w =
     (case run xs d w of
        Inl e \<Rightarrow> Inl e
      | Inr (d', w', outs) \<Rightarrow>
          (case run ys d' w' of
             Inl e \<Rightarrow> Inl e
           | Inr (d'', w'', outs') \<Rightarrow> Inr (d'', w'', outs @ outs')))"
proof (induction xs arbitrary: d w)
  case Nil
  then show ?case by (simp split: sum.splits)
next
  case (Cons x xs)
  then show ?case by (cases x) (simp_all split: sum.splits prod.splits)
qed

lemma run_TryNext_drained:
  assumes "len_buffer d \<noteq> 0" "\<not> readIndex d + len_buffer d < writeIndex d"
    "buffer d ! unat (readIndex d mod len_buffer d) = None"
  shows "run (replicate n OpTryNext) d w = Inr (d, w, replicate n (None, False))"
  by (induction n) (simp_all add: TryNext_drained [OF assms])

lemma TryNext_all_None:
  assumes "len_buffer d \<noteq> 0" "\<forall>x\<in>set (buffer d). x = None"
  shows "\<exists>d' w'. TryNext d w = Inr (d', w', (None, False)) \<and> buffer d' = buffer d \<and>
           (\<forall>u. run (replicate n OpTryNext) d' u = Inr (d', u, replicate n (None, False)))"
proof -
  obtain d1 w1 where cu: "catch_up d w = (d1, w1)"
    by (cases "catch_up d w")
  have b1: "buffer d1 = buffer d" "len_buffer d1 = len_buffer d"
    using catch_up_buffer [of d w] catch_up_len_buffer [of d w] cu by simp_all
  let ?idx = "unat (readIndex d1 mod len_buffer d1)"
  have "?idx < length (buffer d1)"
    using idx_in_bounds [of d1 "readIndex d1"] assms(1) b1 by simp
  then have none: "buffer d1 ! ?idx = None"
    using assms(2) b1 by (metis nth_mem)
  have nz: "len_buffer d1 \<noteq> 0" using assms(1) b1 by simp
  note dr = catch_up_caught_up [OF cu] none
  have "TryNext d w = TryNext d1 w1"
    by (rule TryNext_after_catch_up(1) [OF cu])
  then have "TryNext d w = Inr (d1, w1, (None, False))"
    using TryNext_drained [OF nz dr] by simp
  then show ?thesis
    using b1 run_TryNext_drained [OF nz dr] by blast
qed

lemma sets_of_append: "sets_of (xs @ ys) = sets_of xs @ sets_of ys"
proof (induction xs)
  case Nil
  then show ?case by simp
next
  case (Cons x xs)
  then show ?case by (cases x) simp_all
qed

lemma pending_le: "pending p ops \<le> p + length (sets_of ops)"
proof (induction ops arbitrary: p)
  case Nil
  then show ?case by simp
next
  case (Cons x ops)
  show ?case
  proof (cases x)
    case (OpSet v)
    with Cons [of "Suc p"] show ?thesis by simp
  next
    case OpTryNext
    with Cons [of "p - 1"] show ?thesis by simp
  qed
qed

lemma pending_append: "pending p (xs @ ys) = pending (pending p xs) ys"
proof (induction xs arbitrary: p)
  case Nil
  then show ?case by simp
next
  case (Cons x xs)
  then show ?case by (cases x) simp_all
qed

lemma no_overwrite_append:
  "no_overwrite c p (xs @ ys) \<longleftrightarrow> no_overwrite c p xs \<and> no_overwrite c (pending p xs) ys"
proof (induction xs arbitrary: p)
  case Nil
  then show ?case by simp
next
  case (Cons x xs)
  then show ?case by (cases x) auto
qed

lemma delivered_Cons [simp]:
  "delivered ((v, True) # outs) = v # delivered outs"
  "delivered ((v, False) # outs) = delivered outs"
  "delivered [] = []"
  by (simp_all add: delivered_def)

lemma delivered_append: "delivered (xs @ ys) = delivered xs @ delivered ys"
  by (simp add: delivered_def)

lemma delivered_replicate: "delivered (replicate n (v, True)) = replicate n v"
  by (simp add: delivered_def)

subsection \<open>The invariant and single calls\<close>

lemma diode_inv_len_buffer:
  assumes "diode_inv c vs r d"
  shows "len_buffer d = of_nat c" "len_buffer d \<noteq> 0" "c < 2 ^ 64" "length vs < 2 ^ 64" "r < 2 ^ 64"
proof -
  from assms have c: "0 < c" "length (buffer d) = c" "length vs + c < 2 ^ 64" "r \<le> length vs"
    by (simp_all add: diode_inv_def)
  then show "c < 2 ^ 64" "length vs < 2 ^ 64" "r < 2 ^ 64" by simp_all
  then show "len_buffer d = of_nat c" "len_buffer d \<noteq> 0"
    using c u64_nonzero [of c] by (simp_all add: len_buffer_def)
qed

lemma diode_inv_behind_iff:
  assumes "diode_inv c vs r d"
  shows "readIndex d + len_buffer d < writeIndex d \<longleftrightarrow> r + c < length vs"
proof -
  note l = diode_inv_len_buffer [OF assms]
  from assms have i: "r \<le> length vs" "length vs + c < 2 ^ 64"
    "writeIndex d = of_nat (length vs)" "readIndex d = of_nat r"
    by (simp_all add: diode_inv_def)
  have sum: "readIndex d + len_buffer d = of_nat (r + c)"
    using i l by simp
  have "(of_nat (r + c) :: uint64) < of_nat (length vs) \<longleftrightarrow> r + c < length vs"
    using i by (intro u64_less_iff) simp_all
  then show ?thesis
    unfolding sum i(3) .
qed

lemma diode_inv_read_idx:
  assumes "diode_inv c vs r d"
  shows "unat (readIndex d mod len_buffer d) = r mod c"
proof -
  note l = diode_inv_len_buffer [OF assms]
  from assms have "readIndex d = of_nat r" by (simp add: diode_inv_def)
  then show ?thesis using l by (simp add: u64_mod)
qed

lemma NewOneToOne_diode_inv:
  assumes "NewOneToOne ml sz al = Inr d0" "buffer d0 \<noteq> []"
  shows "diode_inv (length (buffer d0)) [] 0 d0"
proof -
  from assms(1) have d0: "0 \<le> sint sz"
    "d0 = \<lparr>buffer = replicate (nat (sint sz)) None, writeIndex = 0, readIndex = 0,
           alerter = (case al of None \<Rightarrow> (\<lambda>_ w. w) | Some f \<Rightarrow> f)\<rparr>"
    by (auto simp: NewOneToOne_def Let_def split: if_splits)
  have "sint sz < 2 ^ 63"
    using sint_lt [of sz] by simp
  then have "nat (sint sz) < 2 ^ 64" by simp
  with assms(2) d0 show ?thesis
    by (simp add: diode_inv_def slot_ok_def)
qed

lemma Set_diode_inv_eq:
  assumes "diode_inv c vs r d"
  shows "Set d v = Inr (d\<lparr>writeIndex := of_nat (Suc (length vs)),
           buffer := (buffer d)[length vs mod c := Some \<lparr>data = v, seq = of_nat (length vs)\<rparr>]\<rparr>)"
proof -
  note l = diode_inv_len_buffer [OF assms]
  have w: "writeIndex d = of_nat (length vs)"
    using assms by (simp add: diode_inv_def)
  have "unat (writeIndex d mod len_buffer d) = length vs mod c"
    using l w by (simp add: u64_mod)
  then show ?thesis
    using l w by (simp add: Set_def Let_def)
qed

lemma slot_ok_snoc:
  assumes "slot_ok c vs r i x" "i \<noteq> length vs mod c"
  shows "slot_ok c (vs @ [v]) r i x"
proof (cases x)
  case None
  then show ?thesis by (simp add: slot_ok_def)
next
  case (Some b)
  let ?s = "unat (seq b)"
  from assms(1) Some have s: "?s mod c = i" "r \<le> ?s" "?s < length vs" "length vs \<le> ?s + c"
    "data b = vs ! ?s"
    by (simp_all add: slot_ok_def Let_def)
  have "length vs \<noteq> ?s + c"
    using s(1) assms(2) by auto
  with s show ?thesis
    using Some by (simp add: slot_ok_def Let_def nth_append)
qed

lemma Set_diode_inv:
  assumes "diode_inv c vs r d" "Suc (length vs) + c < 2 ^ 64"
  shows "diode_inv c (vs @ [v]) r
           (d\<lparr>writeIndex := of_nat (Suc (length vs)),
              buffer := (buffer d)[length vs mod c := Some \<lparr>data = v, seq = of_nat (length vs)\<rparr>]\<rparr>)"
    (is "diode_inv c ?vs r ?d")
proof -
  note l = diode_inv_len_buffer [OF assms(1)]
  from assms(1) have c: "0 < c" "length (buffer d) = c" "r \<le> length vs"
      "readIndex d = of_nat r"
    and slots: "\<And>i. i < c \<Longrightarrow> slot_ok c vs r i (buffer d ! i)"
    and full: "\<And>s. r \<le> s \<Longrightarrow> s < length vs \<Longrightarrow> length vs \<le> s + c \<Longrightarrow> buffer d ! (s mod c) \<noteq> None"
    by (simp_all add: diode_inv_def)
  let ?n = "length vs"
  have idx: "?n mod c < c" using c by simp
  have new: "slot_ok c ?vs r (?n mod c) (Some \<lparr>data = v, seq = of_nat ?n\<rparr>)"
    using c l by (simp add: slot_ok_def Let_def u64_unat_of_nat)
  have slots': "slot_ok c ?vs r i (buffer ?d ! i)" if "i < c" for i
  proof (cases "i = ?n mod c")
    case True
    then show ?thesis using new c idx by simp
  next
    case False
    then show ?thesis using slots [OF that] slot_ok_snoc [of c vs r i "buffer d ! i" v] by simp
  qed
  have full': "buffer ?d ! (s mod c) \<noteq> None"
    if "r \<le> s" "s < length ?vs" "length ?vs \<le> s + c" for s
  proof (cases "s = ?n")
    case True
    then show ?thesis using c idx by simp
  next
    case False
    with that have s: "s < ?n" "?n < s + c" by simp_all
    then have "s mod c \<noteq> ?n mod c" by (rule mod_distinct)
    then show ?thesis using full [of s] that s by simp
  qed
  show ?thesis
    unfolding diode_inv_def
    using c assms(2) slots' full' by simp
qed

lemma catch_up_diode_inv_eq:
  assumes "diode_inv c vs r d"
  shows "catch_up d w =
           (if r + c < length vs
            then (d\<lparr>readIndex := of_nat (length vs - c)\<rparr>,
                  alerter d (ucast (of_nat (length vs - c - r) :: uint64)) w)
            else (d, w))"
proof -
  note l = diode_inv_len_buffer [OF assms]
  from assms have i: "r \<le> length vs" "length vs + c < 2 ^ 64"
    "writeIndex d = of_nat (length vs)" "readIndex d = of_nat r"
    by (simp_all add: diode_inv_def)
  have sum: "readIndex d + len_buffer d = of_nat (r + c)"
    using i l by simp
  have "(of_nat (r + c) :: uint64) < of_nat (length vs) \<longleftrightarrow> r + c < length vs"
    using i by (intro u64_less_iff) simp_all
  then have cond: "readIndex d + len_buffer d < writeIndex d \<longleftrightarrow> r + c < length vs"
    unfolding sum i(3) .
  show ?thesis
  proof (cases "r + c < length vs")
    case True
    have step: "catch_up d w =
        (d\<lparr>readIndex := writeIndex d - len_buffer d\<rparr>,
         alerter d (ucast (writeIndex d - len_buffer d - readIndex d)) w)"
      using True cond by (simp add: catch_up_def Let_def)
    have e: "writeIndex d - len_buffer d = of_nat (length vs - c)"
      "(of_nat (length vs - c) :: uint64) - of_nat r = of_nat (length vs - c - r)"
      using True i l by simp_all
    show ?thesis
      using True by (simp only: step e i(4) if_True)
  next
    case False
    with cond show ?thesis by (simp add: catch_up_def)
  qed
qed

lemma slot_ok_advance:
  assumes "slot_ok c vs r i x" "\<And>b. x = Some b \<Longrightarrow> r' \<le> unat (seq b)"
  shows "slot_ok c vs r' i x"
  using assms by (cases x) (simp_all add: slot_ok_def Let_def)

lemma catch_up_diode_inv:
  assumes "diode_inv c vs r d"
  shows "diode_inv c vs (max r (length vs - c)) (fst (catch_up d w))"
proof (cases "r + c < length vs")
  case True
  then have m: "max r (length vs - c) = length vs - c" by simp
  from assms have slots: "\<And>i. i < c \<Longrightarrow> slot_ok c vs r i (buffer d ! i)"
    by (simp add: diode_inv_def)
  have "slot_ok c vs (length vs - c) i (buffer d ! i)" if "i < c" for i
    using slots [OF that]
    by (rule slot_ok_advance) (use slots [OF that] in \<open>auto simp: slot_ok_def Let_def\<close>)
  then show ?thesis
    using assms True unfolding m
    by (simp add: catch_up_diode_inv_eq [OF assms] diode_inv_def)
next
  case False
  then have "max r (length vs - c) = r" by simp
  then show ?thesis
    using assms False by (simp add: catch_up_diode_inv_eq [OF assms])
qed

text \<open>A pass from a state in which the reader is within one capacity of the writer.\<close>

lemma slot_at_readIndex:
  assumes "diode_inv c vs r d" "length vs \<le> r + c" "r < length vs"
  obtains b where "buffer d ! (r mod c) = Some b" "seq b = of_nat r" "data b = vs ! r"
proof -
  from assms have c: "0 < c"
    and slots: "\<And>i. i < c \<Longrightarrow> slot_ok c vs r i (buffer d ! i)"
    and full: "\<And>s. r \<le> s \<Longrightarrow> s < length vs \<Longrightarrow> length vs \<le> s + c \<Longrightarrow> buffer d ! (s mod c) \<noteq> None"
    by (simp_all add: diode_inv_def)
  from full [of r] assms obtain b where b: "buffer d ! (r mod c) = Some b" by auto
  let ?s = "unat (seq b)"
  from slots [of "r mod c"] b c have s: "?s mod c = r mod c" "r \<le> ?s" "?s < length vs"
    "data b = vs ! ?s"
    by (simp_all add: slot_ok_def Let_def)
  have "?s = r"
  proof (rule ccontr)
    assume "?s \<noteq> r"
    with s have "r < ?s" "?s < r + c" using assms(2) by simp_all
    then have "r mod c \<noteq> ?s mod c" by (rule mod_distinct)
    with s show False by simp
  qed
  moreover have "seq b = of_nat ?s" by simp
  ultimately have "seq b = of_nat r" "data b = vs ! r"
    using s by simp_all
  with b that show thesis by blast
qed

lemma TryNext_pass_Found:
  assumes "diode_inv c vs r d" "length vs \<le> r + c" "r < length vs"
  shows "\<exists>b. seq b = of_nat r \<and> data b = vs ! r \<and> buffer d ! (r mod c) = Some b \<and>
           TryNext_pass d w = Inr (Found (d\<lparr>buffer := (buffer d)[r mod c := None]\<rparr>) w b)"
proof -
  note l = diode_inv_len_buffer [OF assms(1)]
  from assms(1) have ri: "readIndex d = of_nat r" by (simp add: diode_inv_def)
  have cu: "catch_up d w = (d, w)"
    using assms(2) by (simp add: catch_up_diode_inv_eq [OF assms(1)])
  from slot_at_readIndex [OF assms] obtain b where
    b: "buffer d ! (r mod c) = Some b" "seq b = of_nat r" "data b = vs ! r" .
  have sb: "seq b = readIndex d" using b ri by simp
  have "TryNext_pass d w = Inr (Found (d\<lparr>buffer := (buffer d)[r mod c := None]\<rparr>) w b)"
    using cu l(2) b(1) sb
    by (simp add: TryNext_pass_def Let_def diode_inv_read_idx [OF assms(1)])
  with b show ?thesis by blast
qed

lemma TryNext_pass_Empty:
  assumes "diode_inv c vs r d" "r = length vs"
  shows "TryNext_pass d w = Inr (Empty d w)"
proof -
  note l = diode_inv_len_buffer [OF assms(1)]
  from assms(1) have c: "0 < c"
    and slots: "\<And>i. i < c \<Longrightarrow> slot_ok c vs r i (buffer d ! i)"
    by (simp_all add: diode_inv_def)
  have cu: "catch_up d w = (d, w)"
    using assms(2) by (simp add: catch_up_diode_inv_eq [OF assms(1)])
  have none: "buffer d ! (r mod c) = None"
    using slots [of "r mod c"] c assms(2)
    by (cases "buffer d ! (r mod c)") (auto simp: slot_ok_def Let_def)
  then have "(buffer d)[r mod c := None] = buffer d"
    by (metis list_update_id)
  then show ?thesis
    using cu l(2) none by (simp add: TryNext_pass_def Let_def diode_inv_read_idx [OF assms(1)])
qed

lemma diode_inv_take:
  assumes "diode_inv c vs r d" "length vs \<le> r + c" "r < length vs"
  shows "diode_inv c vs (Suc r)
           (d\<lparr>buffer := (buffer d)[r mod c := None], readIndex := readIndex d + 1\<rparr>)"
    (is "diode_inv c vs (Suc r) ?d")
proof -
  from assms(1) have c: "0 < c" "length (buffer d) = c" "length vs + c < 2 ^ 64"
      "writeIndex d = of_nat (length vs)" "readIndex d = of_nat r"
    and slots: "\<And>i. i < c \<Longrightarrow> slot_ok c vs r i (buffer d ! i)"
    and full: "\<And>s. r \<le> s \<Longrightarrow> s < length vs \<Longrightarrow> length vs \<le> s + c \<Longrightarrow> buffer d ! (s mod c) \<noteq> None"
    by (simp_all add: diode_inv_def)
  have idx: "r mod c < c" using c by simp
  have slots': "slot_ok c vs (Suc r) i (buffer ?d ! i)" if "i < c" for i
  proof (cases "i = r mod c")
    case True
    then show ?thesis using c idx by (simp add: slot_ok_def)
  next
    case False
    have "Suc r \<le> unat (seq b)" if b: "buffer d ! i = Some b" for b
    proof -
      from slots [OF \<open>i < c\<close>] b have "unat (seq b) mod c = i" "r \<le> unat (seq b)"
        by (simp_all add: slot_ok_def Let_def)
      with False show ?thesis by (cases "unat (seq b) = r") auto
    qed
    with slots [OF \<open>i < c\<close>] have "slot_ok c vs (Suc r) i (buffer d ! i)"
      by (rule slot_ok_advance)
    with False show ?thesis by simp
  qed
  have full': "buffer ?d ! (s mod c) \<noteq> None"
    if "Suc r \<le> s" "s < length vs" "length vs \<le> s + c" for s
  proof -
    from that assms(2) have "r < s" "s < r + c" by simp_all
    then have "r mod c \<noteq> s mod c" by (rule mod_distinct)
    then show ?thesis using full [of s] that by simp
  qed
  show ?thesis
    unfolding diode_inv_def
    using c assms(3) slots' full' by simp
qed

lemma TryNext_caught_up:
  assumes "diode_inv c vs r d" "length vs \<le> r + c"
  shows "r < length vs \<Longrightarrow>
           \<exists>d'. TryNext d w = Inr (d', w, (vs ! r, True)) \<and> diode_inv c vs (Suc r) d' \<and>
                alerter d' = alerter d"
    and "r = length vs \<Longrightarrow> TryNext d w = Inr (d, w, (None, False))"
    and "TryNext_passes d w = 1"
proof -
  from assms(1) have rn: "r \<le> length vs" by (simp add: diode_inv_def)
  {
    assume lt: "r < length vs"
    from TryNext_pass_Found [OF assms lt, of w] obtain b where
      b: "data b = vs ! r"
        "TryNext_pass d w = Inr (Found (d\<lparr>buffer := (buffer d)[r mod c := None]\<rparr>) w b)"
      by blast
    have "TryNext d w =
        Inr (d\<lparr>buffer := (buffer d)[r mod c := None], readIndex := readIndex d + 1\<rparr>, w,
             (vs ! r, True))"
      using b by (simp add: TryNext_def TryNext_loop.simps [of d w])
    then show "\<exists>d'. TryNext d w = Inr (d', w, (vs ! r, True)) \<and> diode_inv c vs (Suc r) d' \<and>
                alerter d' = alerter d"
      using diode_inv_take [OF assms lt] by simp
  }
  {
    assume "r = length vs"
    then show "TryNext d w = Inr (d, w, (None, False))"
      using TryNext_pass_Empty [OF assms(1), of w]
      by (simp add: TryNext_def TryNext_loop.simps [of d w])
  }
  show "TryNext_passes d w = 1"
  proof (cases "r < length vs")
    case True
    from TryNext_pass_Found [OF assms True, of w] show ?thesis
      by (auto simp: TryNext_passes.simps [of d w])
  next
    case False
    with rn have "r = length vs" by simp
    from TryNext_pass_Empty [OF assms(1) this, of w] show ?thesis
      by (simp add: TryNext_passes.simps [of d w])
  qed
qed

lemma TryNext_diode_inv:
  assumes "diode_inv c vs r d"
  defines "r1 \<equiv> max r (length vs - c)"
  shows "r1 < length vs \<Longrightarrow>
           \<exists>d'. TryNext d w = Inr (d', snd (catch_up d w), (vs ! r1, True)) \<and>
                diode_inv c vs (Suc r1) d' \<and> alerter d' = alerter d"
    and "\<not> r1 < length vs \<Longrightarrow> TryNext d w = Inr (d, w, (None, False))"
    and "TryNext_passes d w = 1"
proof -
  obtain d1 w1 where cu: "catch_up d w = (d1, w1)"
    by (cases "catch_up d w")
  have i1: "diode_inv c vs r1 d1"
    using catch_up_diode_inv [OF assms(1), of w] cu by (simp add: r1_def)
  have near: "length vs \<le> r1 + c"
    by (simp add: r1_def)
  have al: "alerter d1 = alerter d"
    using catch_up_alerter [of d w] cu by simp
  from assms(1) have rn: "r \<le> length vs" "0 < c" by (simp_all add: diode_inv_def)
  note t = TryNext_after_catch_up [OF cu]
  show "r1 < length vs \<Longrightarrow>
           \<exists>d'. TryNext d w = Inr (d', snd (catch_up d w), (vs ! r1, True)) \<and>
                diode_inv c vs (Suc r1) d' \<and> alerter d' = alerter d"
    using TryNext_caught_up(1) [OF i1 near, of w1] t(1) cu al by auto
  show "TryNext d w = Inr (d, w, (None, False))" if "\<not> r1 < length vs"
  proof -
    from that have "\<not> max r (length vs - c) < length vs"
      unfolding r1_def .
    with rn have "r = length vs" by arith
    then have e: "r = length vs" "r1 = length vs"
      unfolding r1_def by simp_all
    then have "catch_up d w = (d, w)"
      by (simp add: catch_up_diode_inv_eq [OF assms(1)])
    with cu have same: "d1 = d" "w1 = w" by simp_all
    have "TryNext d1 w1 = Inr (d1, w1, (None, False))"
      using e(2) by (rule TryNext_caught_up(2) [OF i1 near])
    then show ?thesis
      unfolding same .
  qed
  show "TryNext_passes d w = 1"
    using TryNext_caught_up(3) [OF i1 near, of w1] t(2) by simp
qed

lemma TryNext_pass_diode_inv:
  assumes "diode_inv c vs r d"
  shows "TryNext_pass d w \<noteq> Inr (Again d' w')"
proof -
  obtain d1 w1 where cu: "catch_up d w = (d1, w1)"
    by (cases "catch_up d w")
  let ?r1 = "max r (length vs - c)"
  have i1: "diode_inv c vs ?r1 d1"
    using catch_up_diode_inv [OF assms, of w] cu by simp
  have near: "length vs \<le> ?r1 + c" by simp
  from i1 have rn: "?r1 \<le> length vs" by (simp add: diode_inv_def)
  have "TryNext_pass d1 w1 \<noteq> Inr (Again d' w')"
  proof (cases "?r1 < length vs")
    case True
    from TryNext_pass_Found [OF i1 near True, of w1] show ?thesis by auto
  next
    case False
    with rn have "?r1 = length vs" by arith
    from TryNext_pass_Empty [OF i1 this, of w1] show ?thesis by simp
  qed
  then show ?thesis
    using TryNext_pass_after_catch_up [OF cu] by simp
qed

subsection \<open>The invariant along a sequence of calls\<close>

lemma run_diode_inv:
  assumes "diode_inv c vs r d" "run ops d w = Inr (d', w', outs)"
    "length vs + length (sets_of ops) + c < 2 ^ 64"
  shows "\<exists>r'. r \<le> r' \<and> diode_inv c (vs @ sets_of ops) r' d'"
  using assms
proof (induction ops arbitrary: vs r d w outs)
  case Nil
  then show ?case by auto
next
  case (Cons x ops)
  show ?case
  proof (cases x)
    case (OpSet v)
    let ?d1 = "d\<lparr>writeIndex := of_nat (Suc (length vs)),
      buffer := (buffer d)[length vs mod c := Some \<lparr>data = v, seq = of_nat (length vs)\<rparr>]\<rparr>"
    have s: "Set d v = Inr ?d1"
      by (rule Set_diode_inv_eq [OF Cons.prems(1)])
    have i: "diode_inv c (vs @ [v]) r ?d1"
      using Cons.prems(3) OpSet by (intro Set_diode_inv [OF Cons.prems(1)]) simp
    have r: "run ops ?d1 w = Inr (d', w', outs)"
      using Cons.prems(2) OpSet s by simp
    from Cons.IH [OF i r] Cons.prems(3) OpSet show ?thesis
      by simp
  next
    case OpTryNext
    let ?r1 = "max r (length vs - c)"
    show ?thesis
    proof (cases "?r1 < length vs")
      case True
      from TryNext_diode_inv(1) [OF Cons.prems(1) True, of w] obtain d1 where
        t: "TryNext d w = Inr (d1, snd (catch_up d w), (vs ! ?r1, True))"
          "diode_inv c vs (Suc ?r1) d1"
        by blast
      from Cons.prems(2) OpTryNext t(1) obtain outs1 where
        r: "run ops d1 (snd (catch_up d w)) = Inr (d', w', outs1)"
        by (auto split: sum.splits)
      from Cons.IH [OF t(2) r] Cons.prems(3) OpTryNext obtain r' where
        "Suc ?r1 \<le> r'" "diode_inv c (vs @ sets_of ops) r' d'"
        by auto
      then show ?thesis
        using OpTryNext by (intro exI [of _ r']) simp
    next
      case False
      from TryNext_diode_inv(2) [OF Cons.prems(1) False, of w]
      have t: "TryNext d w = Inr (d, w, (None, False))" .
      from Cons.prems(2) OpTryNext t obtain outs1 where
        r: "run ops d w = Inr (d', w', outs1)"
        by (auto split: sum.splits)
      from Cons.IH [OF Cons.prems(1) r] Cons.prems(3) OpTryNext show ?thesis
        by simp
    qed
  qed
qed

text \<open>
  The invariant holds in every state that calls on a fresh diode reach, while no cursor
  wraps.
\<close>

lemma reachable_diode_inv:
  assumes "NewOneToOne ml sz al = Inr d0" "run ops d0 w0 = Inr (d, w, outs)"
    "length (sets_of ops) + length (buffer d0) < 2 ^ 64" "buffer d0 \<noteq> []"
  shows "\<exists>r. diode_inv (length (buffer d0)) (sets_of ops) r d"
  using run_diode_inv [OF NewOneToOne_diode_inv [OF assms(1,4)] assms(2)] assms(3)
  by auto

lemma run_sets_diode_inv:
  assumes "diode_inv c vs0 r d" "length vs0 + length vs + c < 2 ^ 64"
  shows "\<exists>d'. run (map OpSet vs) d w = Inr (d', w, []) \<and> diode_inv c (vs0 @ vs) r d' \<and>
           alerter d' = alerter d"
  using assms
proof (induction vs arbitrary: vs0 d)
  case Nil
  then show ?case by simp
next
  case (Cons v vs)
  let ?d1 = "d\<lparr>writeIndex := of_nat (Suc (length vs0)),
    buffer := (buffer d)[length vs0 mod c := Some \<lparr>data = v, seq = of_nat (length vs0)\<rparr>]\<rparr>"
  have s: "Set d v = Inr ?d1"
    by (rule Set_diode_inv_eq [OF Cons.prems(1)])
  have i: "diode_inv c (vs0 @ [v]) r ?d1"
    using Cons.prems(2) by (intro Set_diode_inv [OF Cons.prems(1)]) simp
  from Cons.IH [OF i] Cons.prems(2) obtain d' where
    "run (map OpSet vs) ?d1 w = Inr (d', w, [])" "diode_inv c ((vs0 @ [v]) @ vs) r d'"
    "alerter d' = alerter ?d1"
    by auto
  then show ?case
    using s by simp
qed

lemma run_no_alert:
  assumes "diode_inv c vs r d" "run ops d w = Inr (d', w', outs)"
    "length vs + length (sets_of ops) \<le> r + c" "length vs + length (sets_of ops) + c < 2 ^ 64"
  shows "w' = w"
  using assms
proof (induction ops arbitrary: vs r d w outs)
  case Nil
  then show ?case by simp
next
  case (Cons x ops)
  show ?case
  proof (cases x)
    case (OpSet v)
    let ?d1 = "d\<lparr>writeIndex := of_nat (Suc (length vs)),
      buffer := (buffer d)[length vs mod c := Some \<lparr>data = v, seq = of_nat (length vs)\<rparr>]\<rparr>"
    have s: "Set d v = Inr ?d1"
      by (rule Set_diode_inv_eq [OF Cons.prems(1)])
    have i: "diode_inv c (vs @ [v]) r ?d1"
      using Cons.prems(4) OpSet by (intro Set_diode_inv [OF Cons.prems(1)]) simp
    have r: "run ops ?d1 w = Inr (d', w', outs)"
      using Cons.prems(2) OpSet s by simp
    from Cons.IH [OF i r] Cons.prems(3,4) OpSet show ?thesis
      by simp
  next
    case OpTryNext
    have near: "\<not> r + c < length vs"
      using Cons.prems(3) by simp
    then have cu: "catch_up d w = (d, w)"
      by (simp add: catch_up_diode_inv_eq [OF Cons.prems(1)])
    have m: "max r (length vs - c) = r"
      using near by simp
    show ?thesis
    proof (cases "r < length vs")
      case True
      from TryNext_diode_inv(1) [OF Cons.prems(1), of w] True m cu obtain d1 where
        t: "TryNext d w = Inr (d1, w, (vs ! r, True))" "diode_inv c vs (Suc r) d1"
        by auto
      from Cons.prems(2) OpTryNext t(1) obtain outs1 where
        r: "run ops d1 w = Inr (d', w', outs1)"
        by (auto split: sum.splits)
      from Cons.IH [OF t(2) r] Cons.prems(3,4) OpTryNext show ?thesis
        by simp
    next
      case False
      with m have "\<not> max r (length vs - c) < length vs" by simp
      from TryNext_diode_inv(2) [OF Cons.prems(1) this, of w]
      have t: "TryNext d w = Inr (d, w, (None, False))" .
      from Cons.prems(2) OpTryNext t obtain outs1 where
        r: "run ops d w = Inr (d', w', outs1)"
        by (auto split: sum.splits)
      from Cons.IH [OF Cons.prems(1) r] Cons.prems(3,4) OpTryNext show ?thesis
        by simp
    qed
  qed
qed

lemma run_no_overwrite:
  assumes "diode_inv c vs r d" "run ops d w = Inr (d', w', outs)"
    "no_overwrite c (length vs - r) ops" "length vs \<le> r + c"
    "length vs + length (sets_of ops) + c < 2 ^ 64"
  shows "delivered outs =
           take (length vs - r + length (sets_of ops) - pending (length vs - r) ops)
             (drop r (vs @ sets_of ops))"
  using assms
proof (induction ops arbitrary: vs r d w outs)
  case Nil
  then show ?case by simp
next
  case (Cons x ops)
  from Cons.prems(1) have rn: "r \<le> length vs" by (simp add: diode_inv_def)
  show ?case
  proof (cases x)
    case (OpSet v)
    let ?d1 = "d\<lparr>writeIndex := of_nat (Suc (length vs)),
      buffer := (buffer d)[length vs mod c := Some \<lparr>data = v, seq = of_nat (length vs)\<rparr>]\<rparr>"
    have s: "Set d v = Inr ?d1"
      by (rule Set_diode_inv_eq [OF Cons.prems(1)])
    have i: "diode_inv c (vs @ [v]) r ?d1"
      using Cons.prems(5) OpSet by (intro Set_diode_inv [OF Cons.prems(1)]) simp
    have r: "run ops ?d1 w = Inr (d', w', outs)"
      using Cons.prems(2) OpSet s by simp
    have p: "length (vs @ [v]) - r = Suc (length vs - r)"
      using rn by simp
    have "no_overwrite c (length (vs @ [v]) - r) ops" "length (vs @ [v]) \<le> r + c"
      "length (vs @ [v]) + length (sets_of ops) + c < 2 ^ 64"
      using Cons.prems(3,4,5) OpSet rn unfolding p by auto
    from Cons.IH [OF i r this] show ?thesis
      unfolding p using OpSet by simp
  next
    case OpTryNext
    have m: "max r (length vs - c) = r"
      using Cons.prems(4) by simp
    have cu: "catch_up d w = (d, w)"
      using Cons.prems(4) by (simp add: catch_up_diode_inv_eq [OF Cons.prems(1)])
    show ?thesis
    proof (cases "r < length vs")
      case True
      from TryNext_diode_inv(1) [OF Cons.prems(1), of w] True m cu obtain d1 where
        t: "TryNext d w = Inr (d1, w, (vs ! r, True))" "diode_inv c vs (Suc r) d1"
        by auto
      from Cons.prems(2) OpTryNext t(1) obtain outs1 where
        r: "run ops d1 w = Inr (d', w', outs1)" and o: "outs = (vs ! r, True) # outs1"
        by (auto split: sum.splits)
      have p: "length vs - Suc r = length vs - r - 1" by simp
      have "no_overwrite c (length vs - Suc r) ops" "length vs \<le> Suc r + c"
        "length vs + length (sets_of ops) + c < 2 ^ 64"
        using Cons.prems(3,4,5) OpTryNext unfolding p by auto
      from Cons.IH [OF t(2) r this]
      have ih: "delivered outs1 =
          take (length vs - Suc r + length (sets_of ops) - pending (length vs - Suc r) ops)
            (drop (Suc r) (vs @ sets_of ops))" .
      let ?q = "pending (length vs - Suc r) ops"
      have q: "?q \<le> length vs - Suc r + length (sets_of ops)"
        by (rule pending_le)
      have k: "length vs - r + length (sets_of ops) - ?q =
          Suc (length vs - Suc r + length (sets_of ops) - ?q)"
        using q True by simp
      have dr: "drop r (vs @ sets_of ops) = vs ! r # drop (Suc r) (vs @ sets_of ops)"
        using True by (simp add: Cons_nth_drop_Suc nth_append)
      have pq: "pending (length vs - r) (x # ops) = ?q"
        using OpTryNext p by simp
      have sx: "sets_of (x # ops) = sets_of ops"
        using OpTryNext by simp
      define N where "N = length vs - Suc r + length (sets_of ops) - ?q"
      define ys where "ys = drop (Suc r) (vs @ sets_of ops)"
      have "delivered outs = vs ! r # delivered outs1"
        using o by simp
      also have "\<dots> = vs ! r # take N ys"
        unfolding ih N_def ys_def ..
      also have "\<dots> = take (Suc N) (vs ! r # ys)"
        by simp
      also have "\<dots> = take (Suc N) (drop r (vs @ sets_of ops))"
        unfolding dr ys_def ..
      finally show ?thesis
        unfolding pq sx k N_def .
    next
      case False
      with rn have e: "r = length vs" by simp
      with m have "\<not> max r (length vs - c) < length vs" by simp
      from TryNext_diode_inv(2) [OF Cons.prems(1) this, of w]
      have t: "TryNext d w = Inr (d, w, (None, False))" .
      from Cons.prems(2) OpTryNext t obtain outs1 where
        r: "run ops d w = Inr (d', w', outs1)" and o: "outs = (None, False) # outs1"
        by (auto split: sum.splits)
      have "no_overwrite c (length vs - r) ops" "length vs \<le> r + c"
        "length vs + length (sets_of ops) + c < 2 ^ 64"
        using Cons.prems(3,4,5) OpTryNext e by auto
      from Cons.IH [OF Cons.prems(1) r this] show ?thesis
        using OpTryNext o e by simp
    qed
  qed
qed

lemma run_in_order:
  assumes "diode_inv c vs r d" "run ops d w = Inr (d', w', outs)"
    "length vs + length (sets_of ops) + c < 2 ^ 64"
  shows "\<exists>idxs. sorted_wrt (<) idxs \<and> (\<forall>i\<in>set idxs. r \<le> i \<and> i < length (vs @ sets_of ops)) \<and>
           delivered outs = map ((!) (vs @ sets_of ops)) idxs"
  using assms
proof (induction ops arbitrary: vs r d w outs)
  case Nil
  then show ?case by simp
next
  case (Cons x ops)
  show ?case
  proof (cases x)
    case (OpSet v)
    let ?d1 = "d\<lparr>writeIndex := of_nat (Suc (length vs)),
      buffer := (buffer d)[length vs mod c := Some \<lparr>data = v, seq = of_nat (length vs)\<rparr>]\<rparr>"
    have s: "Set d v = Inr ?d1"
      by (rule Set_diode_inv_eq [OF Cons.prems(1)])
    have i: "diode_inv c (vs @ [v]) r ?d1"
      using Cons.prems(3) OpSet by (intro Set_diode_inv [OF Cons.prems(1)]) simp
    have r: "run ops ?d1 w = Inr (d', w', outs)"
      using Cons.prems(2) OpSet s by simp
    have "length (vs @ [v]) + length (sets_of ops) + c < 2 ^ 64"
      using Cons.prems(3) OpSet by simp
    from Cons.IH [OF i r this] show ?thesis
      using OpSet by simp
  next
    case OpTryNext
    let ?r1 = "max r (length vs - c)"
    let ?xs = "vs @ sets_of ops"
    show ?thesis
    proof (cases "?r1 < length vs")
      case True
      from TryNext_diode_inv(1) [OF Cons.prems(1) True, of w] obtain d1 where
        t: "TryNext d w = Inr (d1, snd (catch_up d w), (vs ! ?r1, True))"
          "diode_inv c vs (Suc ?r1) d1"
        by blast
      from Cons.prems(2) OpTryNext t(1) obtain outs1 where
        r: "run ops d1 (snd (catch_up d w)) = Inr (d', w', outs1)"
        and o: "outs = (vs ! ?r1, True) # outs1"
        by (auto split: sum.splits)
      have "length vs + length (sets_of ops) + c < 2 ^ 64"
        using Cons.prems(3) OpTryNext by simp
      from Cons.IH [OF t(2) r this] obtain idxs where
        ih: "sorted_wrt (<) idxs" "\<forall>i\<in>set idxs. Suc ?r1 \<le> i \<and> i < length ?xs"
          "delivered outs1 = map ((!) ?xs) idxs"
        by blast
      have n: "?xs ! ?r1 = vs ! ?r1"
        using True by (simp add: nth_append)
      have "sorted_wrt (<) (?r1 # idxs)"
        using ih(1,2) by auto
      moreover have "\<forall>i\<in>set (?r1 # idxs). r \<le> i \<and> i < length ?xs"
        using ih(2) True by auto
      moreover have "delivered outs = map ((!) ?xs) (?r1 # idxs)"
        using o ih(3) n by simp
      ultimately show ?thesis
        using OpTryNext by (intro exI [of _ "?r1 # idxs"]) simp
    next
      case False
      from TryNext_diode_inv(2) [OF Cons.prems(1) False, of w]
      have t: "TryNext d w = Inr (d, w, (None, False))" .
      from Cons.prems(2) OpTryNext t obtain outs1 where
        r: "run ops d w = Inr (d', w', outs1)" and o: "outs = (None, False) # outs1"
        by (auto split: sum.splits)
      have "length vs + length (sets_of ops) + c < 2 ^ 64"
        using Cons.prems(3) OpTryNext by simp
      from Cons.IH [OF Cons.prems(1) r this] show ?thesis
        using OpTryNext o by simp
    qed
  qed
qed

subsection \<open>Writes alone on a fresh diode\<close>

lemma sets_inv_len_buffer:
  assumes "sets_inv c vs d"
  shows "len_buffer d = of_nat c" "len_buffer d \<noteq> 0"
proof -
  from assms have c: "0 < c" "c < 2 ^ 64" "length (buffer d) = c"
    by (simp_all add: sets_inv_def)
  then show "len_buffer d = of_nat c" by (simp add: len_buffer_def)
  with c show "len_buffer d \<noteq> 0" by (simp add: u64_nonzero)
qed

lemma NewOneToOne_sets_inv:
  assumes "NewOneToOne ml sz al = Inr d0" "buffer d0 \<noteq> []"
  shows "sets_inv (length (buffer d0)) [] d0"
  using assms NewOneToOne_Inr(3,4) [OF assms(1)] NewOneToOne_length_bound [OF assms(1)]
  by (simp add: sets_inv_def)

lemma Set_sets_inv:
  assumes "sets_inv c vs d" "Suc (length vs) < 2 ^ 64"
  shows "\<exists>d'. Set d v = Inr d' \<and> sets_inv c (vs @ [v]) d' \<and> alerter d' = alerter d"
proof -
  note l = sets_inv_len_buffer [OF assms(1)]
  from assms(1) have c: "0 < c" "c < 2 ^ 64" "length (buffer d) = c" "length vs < 2 ^ 64"
      "writeIndex d = of_nat (length vs)" "readIndex d = 0"
    and slots: "\<And>s. s < length vs \<Longrightarrow> length vs \<le> s + c \<Longrightarrow>
        buffer d ! (s mod c) = Some \<lparr>data = vs ! s, seq = of_nat s\<rparr>"
    by (simp_all add: sets_inv_def)
  let ?n = "length vs"
  let ?d = "d\<lparr>writeIndex := of_nat (Suc ?n),
      buffer := (buffer d)[?n mod c := Some \<lparr>data = v, seq = of_nat ?n\<rparr>]\<rparr>"
  have "unat (writeIndex d mod len_buffer d) = ?n mod c"
    using l c by (simp add: u64_mod)
  then have s: "Set d v = Inr ?d"
    using Set_Inr [OF l(2), of v] c(5) by simp
  have idx: "?n mod c < c" using c by simp
  have slots': "buffer ?d ! (s mod c) = Some \<lparr>data = (vs @ [v]) ! s, seq = of_nat s\<rparr>"
    if "s < length (vs @ [v])" "length (vs @ [v]) \<le> s + c" for s
  proof (cases "s = ?n")
    case True
    then show ?thesis using c idx by simp
  next
    case False
    with that have s: "s < ?n" "?n < s + c" by simp_all
    then have "s mod c \<noteq> ?n mod c" by (rule mod_distinct)
    then show ?thesis using slots [of s] s by (simp add: nth_append)
  qed
  have "sets_inv c (vs @ [v]) ?d"
    unfolding sets_inv_def using c assms(2) slots' by simp
  with s show ?thesis by simp
qed

lemma run_sets_sets_inv:
  assumes "sets_inv c vs0 d" "length vs0 + length vs < 2 ^ 64"
  shows "\<exists>d'. run (map OpSet vs) d w = Inr (d', w, []) \<and> sets_inv c (vs0 @ vs) d' \<and>
           alerter d' = alerter d"
  using assms
proof (induction vs arbitrary: vs0 d)
  case Nil
  then show ?case by simp
next
  case (Cons v vs)
  from Cons.prems(2) have "Suc (length vs0) < 2 ^ 64" by simp
  from Set_sets_inv [OF Cons.prems(1) this, of v] obtain d1 where
    s: "Set d v = Inr d1" "sets_inv c (vs0 @ [v]) d1" "alerter d1 = alerter d"
    by blast
  have "length (vs0 @ [v]) + length vs < 2 ^ 64"
    using Cons.prems(2) by simp
  from Cons.IH [OF s(2) this] s(1,3) show ?case by simp
qed

lemma TryNext_sets_inv:
  assumes "sets_inv c vs d" "c < length vs"
  defines "k \<equiv> length vs - c"
  shows "catch_up d w = (d\<lparr>readIndex := of_nat k\<rparr>, alerter d (ucast (of_nat k :: uint64)) w)"
    and "TryNext d w =
      Inr (d\<lparr>readIndex := of_nat k + 1, buffer := (buffer d)[k mod c := None]\<rparr>,
           alerter d (ucast (of_nat k :: uint64)) w, (vs ! k, True))"
proof -
  note l = sets_inv_len_buffer [OF assms(1)]
  from assms(1) have c: "0 < c" "c < 2 ^ 64" "length (buffer d) = c" "length vs < 2 ^ 64"
      "writeIndex d = of_nat (length vs)" "readIndex d = 0"
    and slots: "\<And>s. s < length vs \<Longrightarrow> length vs \<le> s + c \<Longrightarrow>
        buffer d ! (s mod c) = Some \<lparr>data = vs ! s, seq = of_nat s\<rparr>"
    by (simp_all add: sets_inv_def)
  have k: "k < length vs" "length vs \<le> k + c" "k < 2 ^ 64"
    using assms(2) c k_def by simp_all
  have "(of_nat c :: uint64) < of_nat (length vs)"
    using assms(2) c by (simp add: u64_less_iff)
  then have behind: "readIndex d + len_buffer d < writeIndex d"
    using c l by simp
  have sub: "writeIndex d - len_buffer d = of_nat k"
    unfolding c(5) l(1) k_def using assms(2) by simp
  let ?d1 = "d\<lparr>readIndex := of_nat k\<rparr>"
  show cu: "catch_up d w = (?d1, alerter d (ucast (of_nat k :: uint64)) w)"
    using behind sub c(6) by (simp add: catch_up_def Let_def)
  have l1: "len_buffer ?d1 = of_nat c"
    using l by (simp add: len_buffer_def)
  have idx: "unat (readIndex ?d1 mod len_buffer ?d1) = k mod c"
    unfolding l1 using c k by (simp add: u64_mod)
  have slot: "buffer ?d1 ! (k mod c) = Some \<lparr>data = vs ! k, seq = of_nat k\<rparr>"
    using slots [OF k(1,2)] by simp
  have "TryNext_pass d w =
      Inr (Found (?d1\<lparr>buffer := (buffer ?d1)[k mod c := None]\<rparr>)
        (alerter d (ucast (of_nat k :: uint64)) w) \<lparr>data = vs ! k, seq = of_nat k\<rparr>)"
    using TryNext_pass_cases [OF l(2) cu] slot unfolding idx by simp
  then show "TryNext d w =
      Inr (d\<lparr>readIndex := of_nat k + 1, buffer := (buffer d)[k mod c := None]\<rparr>,
           alerter d (ucast (of_nat k :: uint64)) w, (vs ! k, True))"
    by (simp add: TryNext_def TryNext_loop.simps [of d w])
qed

subsection \<open>The example diodes\<close>

text \<open>
  The equations that evaluate the calls on a given state.
\<close>

lemmas diode_eval = NewOneToOne_def Set_def TryNext_def TryNext_loop.simps TryNext_pass_def
  catch_up_def len_buffer_def Let_def log_alert_def

lemma replicate_5: "replicate 5 x = [x, x, x, x, x]"
  by (simp add: numeral_eq_Suc)

lemma replicate_3: "replicate 3 x = [x, x, x]"
  by (simp add: numeral_eq_Suc)

lemma NewOneToOne_diode0: "NewOneToOne (2 ^ 45) 0 (Some log_alert) = Inr diode0"
  by (simp add: NewOneToOne_def diode0_def)

lemma replicate_4: "replicate 4 x = [x, x, x, x]"
  by (simp add: numeral_eq_Suc)

lemma NewOneToOne_diode4: "NewOneToOne (2 ^ 45) 4 (Some log_alert) = Inr diode4"
  by (simp add: NewOneToOne_def diode4_def replicate_4)

lemma run_five_sets: "run five_sets diode4 w = Inr (diode4_full, w, [])"
  by (simp add: five_sets_def diode4_def diode4_full_def diode_eval)

lemma run_five_sets_drain:
  "run (five_sets @ replicate 5 OpTryNext) diode4 [] =
     Inr (diode4_drained, [1],
          [(Some 11, True), (Some 12, True), (Some 13, True), (Some 14, True), (None, False)])"
  by (simp add: five_sets_def diode4_def diode4_drained_def diode_eval replicate_5)

lemma run_four_sets_drain:
  "run (four_sets @ replicate 5 OpTryNext) diode4 [] =
     Inr (\<lparr>buffer = [None, None, None, None], writeIndex = 4, readIndex = 4, alerter = log_alert\<rparr>,
          [],
          [(Some 10, True), (Some 11, True), (Some 12, True), (Some 13, True), (None, False)])"
  by (simp add: four_sets_def diode4_def diode_eval replicate_5)

lemma run_after_drain:
  "run ([OpSet (Some 15), OpSet (Some 16)] @ replicate 3 OpTryNext) diode4_drained [1] =
     Inr (\<lparr>buffer = [None, None, None, None], writeIndex = 7, readIndex = 7, alerter = log_alert\<rparr>,
          [1], [(Some 15, True), (Some 16, True), (None, False)])"
  by (simp add: diode4_drained_def diode_eval replicate_3)

subsection \<open>Capacity 1 and the end of the 64-bit range\<close>

lemma NewOneToOne_one_slot: "NewOneToOne (2 ^ 45) 1 (Some log_alert) = Inr (one_slot None 0 0)"
  by (simp add: NewOneToOne_def one_slot_def)

lemma Set_one_slot:
  "Set (one_slot x wi ri) v = Inr (one_slot (Some \<lparr>data = v, seq = wi\<rparr>) (wi + 1) ri)"
  by (simp add: one_slot_def Set_def len_buffer_def Let_def)

lemma run_sets_one_slot:
  "run (replicate (Suc n) (OpSet v)) (one_slot x wi ri) w =
     Inr (one_slot (Some \<lparr>data = v, seq = wi + of_nat n\<rparr>) (wi + of_nat n + 1) ri, w, [])"
proof (induction n arbitrary: x wi)
  case 0
  then show ?case by (simp add: Set_one_slot)
next
  case (Suc n)
  have "run (replicate (Suc (Suc n)) (OpSet v)) (one_slot x wi ri) w =
      run (replicate (Suc n) (OpSet v)) (one_slot (Some \<lparr>data = v, seq = wi\<rparr>) (wi + 1) ri) w"
    by (simp add: Set_one_slot)
  also have "\<dots> = Inr (one_slot (Some \<lparr>data = v, seq = wi + 1 + of_nat n\<rparr>)
      (wi + 1 + of_nat n + 1) ri, w, [])"
    by (rule Suc.IH)
  finally show ?case by (simp add: add.commute add.left_commute)
qed

lemma NewOneToOne_one_slot32:
  "NewOneToOne (2 ^ 28) 1 (Some log_alert) = Inr (one_slot32 None 0 0)"
  by (simp add: NewOneToOne_def one_slot32_def)

lemma Set_one_slot32:
  "Set (one_slot32 x wi ri) v = Inr (one_slot32 (Some \<lparr>data = v, seq = wi\<rparr>) (wi + 1) ri)"
  by (simp add: one_slot32_def Set_def len_buffer_def Let_def)

lemma run_sets_one_slot32:
  "run (replicate (Suc n) (OpSet v)) (one_slot32 x wi ri) w =
     Inr (one_slot32 (Some \<lparr>data = v, seq = wi + of_nat n\<rparr>) (wi + of_nat n + 1) ri, w, [])"
proof (induction n arbitrary: x wi)
  case 0
  then show ?case by (simp add: Set_one_slot32)
next
  case (Suc n)
  have "run (replicate (Suc (Suc n)) (OpSet v)) (one_slot32 x wi ri) w =
      run (replicate (Suc n) (OpSet v)) (one_slot32 (Some \<lparr>data = v, seq = wi\<rparr>) (wi + 1) ri) w"
    by (simp add: Set_one_slot32)
  also have "\<dots> = Inr (one_slot32 (Some \<lparr>data = v, seq = wi + 1 + of_nat n\<rparr>)
      (wi + 1 + of_nat n + 1) ri, w, [])"
    by (rule Suc.IH)
  finally show ?case by (simp add: add.commute add.left_commute)
qed

lemma TryNext_one_slot_match:
  "TryNext (one_slot (Some \<lparr>data = v, seq = m\<rparr>) (m + 1) m) w =
     Inr (one_slot None (m + 1) (m + 1), w, (v, True))"
  by (simp add: one_slot_def diode_eval)

lemma run_rounds_one_slot:
  "run (concat (replicate n [OpSet v, OpTryNext])) (one_slot None m m) w =
     Inr (one_slot None (m + of_nat n) (m + of_nat n), w, replicate n (v, True))"
proof (induction n arbitrary: m)
  case 0
  then show ?case by simp
next
  case (Suc n)
  have "run (concat (replicate (Suc n) [OpSet v, OpTryNext])) (one_slot None m m) w =
      (case run (concat (replicate n [OpSet v, OpTryNext])) (one_slot None (m + 1) (m + 1)) w of
         Inl e \<Rightarrow> Inl e
       | Inr (d'', w'', outs) \<Rightarrow> Inr (d'', w'', (v, True) # outs))"
    by (simp add: Set_one_slot TryNext_one_slot_match)
  then show ?case
    by (simp add: Suc.IH add.commute add.left_commute)
qed

lemma run_wrapped_one_slot:
  "run (replicate (2 ^ 64) (OpSet (Some 7))) (one_slot None 0 0) [] =
     Inr (one_slot (Some \<lparr>data = Some 7, seq = 2 ^ 64 - 1\<rparr>) 0 0, [], [])"
proof -
  have n: "(18446744073709551616 :: nat) = Suc 18446744073709551615" by simp
  have "run (replicate 18446744073709551616 (OpSet (Some 7))) (one_slot None 0 0) [] =
     Inr (one_slot (Some \<lparr>data = Some 7, seq = - 1\<rparr>) 0 0, [], [])"
    unfolding n run_sets_one_slot by (simp add: u64_wrap)
  then show ?thesis
    by (simp add: u64_wrap)
qed

lemma TryNext_pass_wrapped_one_slot:
  "TryNext_pass (one_slot (Some \<lparr>data = Some 7, seq = 2 ^ 64 - 1\<rparr>) 0 0) [] =
     Inr (Again (one_slot None 0 1) [])"
  by (simp add: one_slot_def diode_eval)

lemma TryNext_passes_wrapped_one_slot:
  "TryNext_passes (one_slot (Some \<lparr>data = Some 7, seq = 2 ^ 64 - 1\<rparr>) 0 0) [] = 2"
proof -
  have p: "TryNext_pass (one_slot None 0 1) [] = Inr (Empty (one_slot None 0 1) [])"
    by (simp add: one_slot_def diode_eval)
  show ?thesis
    apply (subst TryNext_passes.simps)
    apply (simp only: TryNext_pass_wrapped_one_slot sum.case pass.case)
    apply (subst TryNext_passes.simps)
    apply (simp only: p sum.case pass.case)
    done
qed

lemma run_rounds_max_one_slot:
  "run (concat (replicate (2 ^ 64 - 1) [OpSet (Some 7), OpTryNext])) (one_slot None 0 0) [] =
     Inr (one_slot None (2 ^ 64 - 1) (2 ^ 64 - 1), [], replicate (2 ^ 64 - 1) (Some 7, True))"
  using run_rounds_one_slot [of "2 ^ 64 - 1" "Some 7" 0 "[]"]
  by (simp add: u64_wrap)

lemma TryNext_max_one_slot:
  "TryNext (one_slot None (2 ^ 64 - 1) (2 ^ 64 - 1)) w =
     Inr (one_slot None (2 ^ 64 - 1) (2 ^ 64 - 2), log_alert (- 1 :: 64 word) w, (None, False))"
  by (simp add: one_slot_def TryNext_def TryNext_loop.simps TryNext_pass_def
      catch_up_def len_buffer_def Let_def)

lemma rounds_facts:
  "sets_of (rounds n v) = replicate n v" "pending 0 (rounds n v) = 0"
  "no_overwrite (Suc c) 0 (rounds n v)"
  by (induction n) (simp_all add: rounds_def)

lemma run_wrap_tail:
  "run [OpTryNext, OpSet (Some 8), OpTryNext, OpTryNext] (one_slot None (2 ^ 64 - 1) (2 ^ 64 - 1)) [] =
     Inr (one_slot None 0 (2 ^ 64 - 1), [- 1], [(None, False), (None, False), (None, False)])"
  by (simp add: one_slot_def diode_eval)

lemma run_wrap_calls:
  "run wrap_calls (one_slot None 0 0) [] = Inr (one_slot None 0 (2 ^ 64 - 1), [- 1], wrap_outs)"
  unfolding wrap_calls_def wrap_outs_def rounds_def run_append run_rounds_max_one_slot
  by (simp only: sum.case prod.case run_wrap_tail)

section \<open>The claims\<close>

subsection \<open>Claim C1\<close>

text \<open>
  C1 (as amended). Let \<open>W = LENGTH('i)\<close> be the width of \<^verbatim>\<open>int\<close> on the platform, 32 or 64.
  On a fresh diode of capacity \<open>c \<ge> 1\<close>, after \<open>c + k\<close> calls of \<^verbatim>\<open>Set\<close> with
  \<open>1 \<le> k < 2 ^ (W - 1)\<close> and no read, the first \<^verbatim>\<open>TryNext\<close> applies the alerter once, to
  the \<^verbatim>\<open>int\<close> \<open>k\<close>; the catch-up sets \<^verbatim>\<open>readIndex\<close> to \<^verbatim>\<open>writeIndex - c\<close>; the call returns
  the value written as number \<open>k + 1\<close> with \<^verbatim>\<open>ok = true\<close> and leaves \<^verbatim>\<open>readIndex\<close> one
  further. In every state reached from a fresh diode by calls whose number of \<^verbatim>\<open>Set\<close>
  calls plus the capacity is below \<open>2 ^ 64\<close>, a \<^verbatim>\<open>TryNext\<close> that finds
  \<^verbatim>\<open>readIndex + capacity < writeIndex\<close> applies the alerter once, to
  \<^verbatim>\<open>int((writeIndex - capacity) - readIndex)\<close>; the \<^verbatim>\<open>uint64\<close> difference is positive, and the
  \<^verbatim>\<open>int\<close> passed is that number whenever it is below \<open>2 ^ (W - 1)\<close>.
\<close>

theorem C1_exact_loss_accounting:
  fixes d0 :: "('a, 'i::len word, 'w) OneToOne"
  shows
  "(NewOneToOne ml sz al = Inr d0 \<and> c = length (buffer d0) \<and> 1 \<le> c \<and> 1 \<le> k \<and>
    LENGTH('i) \<le> 64 \<and> k < 2 ^ (LENGTH('i) - 1) \<and> length vs = c + k \<longrightarrow>
      (\<exists>d d1 d'. run (map OpSet vs) d0 w = Inr (d, w, []) \<and>
         catch_up d w = (d1, alerter d0 (of_nat k) w) \<and> sint (of_nat k :: 'i word) = int k \<and>
         readIndex d1 = writeIndex d - len_buffer d \<and>
         TryNext d w = Inr (d', alerter d0 (of_nat k) w, (vs ! k, True)) \<and>
         readIndex d' = writeIndex d - len_buffer d + 1)) \<and>
   (NewOneToOne ml sz al = Inr d0 \<and> run ops d0 w0 = Inr (e, w1, outs) \<and>
    length (sets_of ops) + length (buffer d0) < 2 ^ 64 \<and>
    readIndex e + len_buffer e < writeIndex e \<longrightarrow>
      0 < unat (writeIndex e - len_buffer e - readIndex e) \<and>
      (\<exists>e' res. TryNext e w1 =
         Inr (e', alerter e (ucast (writeIndex e - len_buffer e - readIndex e)) w1, res)) \<and>
      (LENGTH('i) \<le> 64 \<and>
       unat (writeIndex e - len_buffer e - readIndex e) < 2 ^ (LENGTH('i) - 1) \<longrightarrow>
         sint (ucast (writeIndex e - len_buffer e - readIndex e) :: 'i word) =
           int (unat (writeIndex e - len_buffer e - readIndex e))))"
proof -
  have p1: "\<exists>d d1 d'. run (map OpSet vs) d0 w = Inr (d, w, []) \<and>
         catch_up d w = (d1, alerter d0 (of_nat k) w) \<and> sint (of_nat k :: 'i word) = int k \<and>
         readIndex d1 = writeIndex d - len_buffer d \<and>
         TryNext d w = Inr (d', alerter d0 (of_nat k) w, (vs ! k, True)) \<and>
         readIndex d' = writeIndex d - len_buffer d + 1"
    if a: "NewOneToOne ml sz al = Inr d0 \<and> c = length (buffer d0) \<and> 1 \<le> c \<and> 1 \<le> k \<and>
      LENGTH('i) \<le> 64 \<and> k < 2 ^ (LENGTH('i) - 1) \<and> length vs = c + k"
  proof -
    from a have n: "NewOneToOne ml sz al = Inr d0"
      and c: "c = length (buffer d0)" "1 \<le> c" "1 \<le> k" "length vs = c + k"
      and b: "LENGTH('i) \<le> 64" "k < 2 ^ (LENGTH('i) - 1)"
      by blast+
    from c(1,2) have ne: "buffer d0 \<noteq> []"
      by (cases "buffer d0") simp_all
    have i0: "sets_inv c [] d0"
      using NewOneToOne_sets_inv [OF n ne] c(1) by simp
    have k63: "k < 2 ^ 63"
      using b by (rule go_int_bound)
    have "c < 2 ^ 63"
      using NewOneToOne_length_bound [OF n] c(1) by simp
    with k63 c(4) have "length ([] :: 'a GenericDataType list) + length vs < 2 ^ 64"
      by simp
    from run_sets_sets_inv [OF i0 this, of w] obtain d where
      d: "run (map OpSet vs) d0 w = Inr (d, w, [])" "sets_inv c vs d" "alerter d = alerter d0"
      by auto
    note l = sets_inv_len_buffer [OF d(2)]
    from d(2) have wi: "writeIndex d = of_nat (length vs)"
      by (simp add: sets_inv_def)
    have k: "length vs - c = k" "c < length vs"
      using c by simp_all
    have sub: "writeIndex d - len_buffer d = of_nat k"
      unfolding wi l(1) using c(4) by simp
    have uc: "(ucast (of_nat k :: uint64) :: 'i word) = of_nat k"
      using b(1) by (rule go_int_ucast_of_nat)
    note t = TryNext_sets_inv [OF d(2) k(2), of w, unfolded k(1) uc d(3)]
    have "readIndex (d\<lparr>readIndex := of_nat k\<rparr>) = writeIndex d - len_buffer d"
      unfolding sub by simp
    moreover have "readIndex (d\<lparr>readIndex := of_nat k + 1, buffer := (buffer d)[k mod c := None]\<rparr>) =
        writeIndex d - len_buffer d + 1"
      unfolding sub by simp
    moreover have "sint (of_nat k :: 'i word) = int k"
      using b(2) by (rule go_int_of_nat)
    ultimately show ?thesis
      using d(1) t by blast
  qed
  have p2: "0 < unat (writeIndex e - len_buffer e - readIndex e) \<and>
      (\<exists>e' res. TryNext e w1 =
         Inr (e', alerter e (ucast (writeIndex e - len_buffer e - readIndex e)) w1, res)) \<and>
      (LENGTH('i) \<le> 64 \<and>
       unat (writeIndex e - len_buffer e - readIndex e) < 2 ^ (LENGTH('i) - 1) \<longrightarrow>
         sint (ucast (writeIndex e - len_buffer e - readIndex e) :: 'i word) =
           int (unat (writeIndex e - len_buffer e - readIndex e)))"
    if a: "NewOneToOne ml sz al = Inr d0 \<and> run ops d0 w0 = Inr (e, w1, outs) \<and>
      length (sets_of ops) + length (buffer d0) < 2 ^ 64 \<and>
      readIndex e + len_buffer e < writeIndex e"
  proof -
    from a have n: "NewOneToOne ml sz al = Inr d0" and r: "run ops d0 w0 = Inr (e, w1, outs)"
      and b: "length (sets_of ops) + length (buffer d0) < 2 ^ 64"
      and behind: "readIndex e + len_buffer e < writeIndex e"
      by auto
    have ne: "buffer d0 \<noteq> []"
    proof
      assume "buffer d0 = []"
      then have z: "len_buffer d0 = 0" by (simp add: len_buffer_def)
      from run_zero [OF z r] have "e = d0" by simp
      with behind z NewOneToOne_Inr(3,4) [OF n] show False by simp
    qed
    let ?c = "length (buffer d0)" and ?n = "length (sets_of ops)"
    from reachable_diode_inv [OF n r b ne] obtain q where
      i: "diode_inv ?c (sets_of ops) q e" by blast
    note l = diode_inv_len_buffer [OF i]
    from i have f: "writeIndex e = of_nat ?n" "readIndex e = of_nat q" "0 < ?c"
      by (simp_all add: diode_inv_def)
    from behind diode_inv_behind_iff [OF i] have lt: "q + ?c < ?n" by simp
    let ?m = "?n - ?c - q"
    have missed: "writeIndex e - len_buffer e - readIndex e = of_nat ?m"
      unfolding f l(1) using lt by simp
    have "?m < 2 ^ 64" using b by simp
    then have um: "unat (of_nat ?m :: uint64) = ?m"
      by (rule u64_unat_of_nat)
    have pos: "0 < unat (writeIndex e - len_buffer e - readIndex e)"
      unfolding missed um using lt by simp
    have cu: "snd (catch_up e w1) = alerter e (ucast (of_nat ?m :: uint64)) w1"
      using catch_up_diode_inv_eq [OF i, of w1] lt by simp
    have "max q (?n - ?c) < ?n"
      using lt f(3) by arith
    from TryNext_diode_inv(1) [OF i this, of w1] obtain e' where
      "TryNext e w1 = Inr (e', snd (catch_up e w1), (sets_of ops ! max q (?n - ?c), True))"
      by blast
    then have once: "\<exists>e' res. TryNext e w1 =
         Inr (e', alerter e (ucast (writeIndex e - len_buffer e - readIndex e)) w1, res)"
      unfolding missed cu by blast
    have fits: "sint (ucast (writeIndex e - len_buffer e - readIndex e) :: 'i word) =
        int (unat (writeIndex e - len_buffer e - readIndex e))"
      if h: "LENGTH('i) \<le> 64 \<and>
        unat (writeIndex e - len_buffer e - readIndex e) < 2 ^ (LENGTH('i) - 1)"
    proof -
      from h have "?m < 2 ^ (LENGTH('i) - 1)"
        unfolding missed um by simp
      then have "sint (of_nat ?m :: 'i word) = int ?m"
        by (rule go_int_of_nat)
      moreover have "(ucast (of_nat ?m :: uint64) :: 'i word) = of_nat ?m"
        using h by (intro go_int_ucast_of_nat) simp
      ultimately show ?thesis
        unfolding missed um by simp
    qed
    from pos once fits show ?thesis by blast
  qed
  from p1 p2 show ?thesis by blast
qed

theorem C1_witness:
  "(\<exists>d d1 d'. run (map OpSet five_values) diode4 [] = Inr (d, [], []) \<and>
      catch_up d [] = (d1, [1]) \<and> readIndex d1 = writeIndex d - len_buffer d \<and>
      TryNext d [] = Inr (d', [1], (Some 11, True)) \<and>
      readIndex d' = writeIndex d - len_buffer d + 1) \<and>
   0 < unat (writeIndex diode4_full - len_buffer diode4_full - readIndex diode4_full) \<and>
   (\<exists>e' res. TryNext diode4_full [] = Inr (e', [1], res)) \<and>
   sint (ucast (writeIndex diode4_full - len_buffer diode4_full - readIndex diode4_full) :: 64 word) = 1 \<and>
   (\<exists>d d1 d'. run (map OpSet (replicate (2 ^ 63) (Some 7))) (one_slot None 0 0) [] = Inr (d, [], []) \<and>
      catch_up d [] = (d1, [2 ^ 63 - 1]) \<and>
      TryNext d [] = Inr (d', [2 ^ 63 - 1], (Some 7, True))) \<and>
   (\<exists>d d1 d'. run (map OpSet (replicate (2 ^ 31) (Some 7))) (one_slot32 None 0 0) [] = Inr (d, [], []) \<and>
      catch_up d [] = (d1, [2 ^ 31 - 1]) \<and>
      TryNext d [] = Inr (d', [2 ^ 31 - 1], (Some 7, True)))"
proof -
  have h: "(4 :: nat) = length (buffer diode4)" "(1 :: nat) \<le> 4" "(1 :: nat) \<le> 1"
    "LENGTH(64) \<le> 64" "(1 :: nat) < 2 ^ (LENGTH(64) - 1)"
    "length five_values = 4 + 1" "five_values ! 1 = Some 11"
    "alerter diode4 (of_nat 1) [] = [1]"
    "length (sets_of five_sets) + length (buffer diode4) < 2 ^ 64"
    "readIndex diode4_full + len_buffer diode4_full < writeIndex diode4_full"
    "alerter diode4_full
       (ucast (writeIndex diode4_full - len_buffer diode4_full - readIndex diode4_full)) [] = [1]"
    "unat (writeIndex diode4_full - len_buffer diode4_full - readIndex diode4_full) = 1"
    by (simp_all add: diode4_def diode4_full_def five_values_def five_sets_def len_buffer_def
        log_alert_def)
  note c = C1_exact_loss_accounting [where sz = 4 and al = "Some log_alert" and ?d0.0 = diode4
      and c = 4 and k = 1 and vs = five_values and w = "[]" and ops = five_sets
      and ?w0.0 = "[]" and e = diode4_full and ?w1.0 = "[]" and outs = "[]"
      and ml = "2 ^ 45"]
  from c h NewOneToOne_diode4 run_five_sets [of "[]"] have small:
    "(\<exists>d d1 d'. run (map OpSet five_values) diode4 [] = Inr (d, [], []) \<and>
      catch_up d [] = (d1, [1]) \<and> readIndex d1 = writeIndex d - len_buffer d \<and>
      TryNext d [] = Inr (d', [1], (Some 11, True)) \<and>
      readIndex d' = writeIndex d - len_buffer d + 1) \<and>
     0 < unat (writeIndex diode4_full - len_buffer diode4_full - readIndex diode4_full) \<and>
     (\<exists>e' res. TryNext diode4_full [] = Inr (e', [1], res)) \<and>
     sint (ucast (writeIndex diode4_full - len_buffer diode4_full - readIndex diode4_full) :: 64 word) = 1"
    by simp
  have g: "(1 :: nat) = length (buffer (one_slot None 0 0))" "(1 :: nat) \<le> 1"
    "(1 :: nat) \<le> 2 ^ 63 - 1" "LENGTH(64) \<le> 64" "(2 :: nat) ^ 63 - 1 < 2 ^ (LENGTH(64) - 1)"
    "length (replicate (2 ^ 63) (Some (7 :: nat))) = 1 + (2 ^ 63 - 1)"
    "replicate (2 ^ 63) (Some (7 :: nat)) ! (2 ^ 63 - 1) = Some 7"
    "alerter (one_slot None 0 0) (of_nat (2 ^ 63 - 1)) [] = [2 ^ 63 - 1]"
    by (simp_all add: one_slot_def log_alert_def)
  note c64 = C1_exact_loss_accounting [where sz = 1 and al = "Some log_alert"
      and ?d0.0 = "one_slot None 0 0" and c = 1 and k = "2 ^ 63 - 1"
      and vs = "replicate (2 ^ 63) (Some 7)" and w = "[]" and ml = "2 ^ 45"]
  from c64 NewOneToOne_one_slot g(1-6) have
    "\<exists>d d1 d'. run (map OpSet (replicate (2 ^ 63) (Some 7))) (one_slot None 0 0) [] = Inr (d, [], []) \<and>
       catch_up d [] = (d1, alerter (one_slot None 0 0) (of_nat (2 ^ 63 - 1)) []) \<and>
       TryNext d [] = Inr (d', alerter (one_slot None 0 0) (of_nat (2 ^ 63 - 1)) [],
         (replicate (2 ^ 63) (Some 7) ! (2 ^ 63 - 1), True))"
    by blast
  then have big64:
    "\<exists>d d1 d'. run (map OpSet (replicate (2 ^ 63) (Some 7))) (one_slot None 0 0) [] = Inr (d, [], []) \<and>
       catch_up d [] = (d1, [2 ^ 63 - 1]) \<and>
       TryNext d [] = Inr (d', [2 ^ 63 - 1], (Some 7, True))"
    unfolding g(7,8) .
  have f: "(1 :: nat) = length (buffer (one_slot32 None 0 0))" "(1 :: nat) \<le> 1"
    "(1 :: nat) \<le> 2 ^ 31 - 1" "LENGTH(32) \<le> 64" "(2 :: nat) ^ 31 - 1 < 2 ^ (LENGTH(32) - 1)"
    "length (replicate (2 ^ 31) (Some (7 :: nat))) = 1 + (2 ^ 31 - 1)"
    "replicate (2 ^ 31) (Some (7 :: nat)) ! (2 ^ 31 - 1) = Some 7"
    "alerter (one_slot32 None 0 0) (of_nat (2 ^ 31 - 1)) [] = [2 ^ 31 - 1]"
    by (simp_all add: one_slot32_def log_alert_def)
  note c32 = C1_exact_loss_accounting [where sz = 1 and al = "Some log_alert"
      and ?d0.0 = "one_slot32 None 0 0" and c = 1 and k = "2 ^ 31 - 1"
      and vs = "replicate (2 ^ 31) (Some 7)" and w = "[]" and ml = "2 ^ 28"]
  from c32 NewOneToOne_one_slot32 f(1-6) have
    "\<exists>d d1 d'. run (map OpSet (replicate (2 ^ 31) (Some 7))) (one_slot32 None 0 0) [] = Inr (d, [], []) \<and>
       catch_up d [] = (d1, alerter (one_slot32 None 0 0) (of_nat (2 ^ 31 - 1)) []) \<and>
       TryNext d [] = Inr (d', alerter (one_slot32 None 0 0) (of_nat (2 ^ 31 - 1)) [],
         (replicate (2 ^ 31) (Some 7) ! (2 ^ 31 - 1), True))"
    by blast
  then have big32:
    "\<exists>d d1 d'. run (map OpSet (replicate (2 ^ 31) (Some 7))) (one_slot32 None 0 0) [] = Inr (d, [], []) \<and>
       catch_up d [] = (d1, [2 ^ 31 - 1]) \<and>
       TryNext d [] = Inr (d', [2 ^ 31 - 1], (Some 7, True))"
    unfolding f(7,8) .
  from small big64 big32 show ?thesis
    by (intro conjI) blast+
qed

text \<open>
  The bound on \<open>k\<close> is needed, on either platform, already with capacity 1. Where
  \<^verbatim>\<open>int\<close> has 64 bits and \<open>k = 2 ^ 63\<close>: after \<open>2 ^ 63 + 1\<close> writes the first \<^verbatim>\<open>TryNext\<close>
  calls the alerter with \<^verbatim>\<open>int(2 ^ 63)\<close>, which is \<open>- (2 ^ 63)\<close>: neither \<open>k\<close> nor positive.
  Where \<^verbatim>\<open>int\<close> has 32 bits and \<open>k = 2 ^ 31\<close>: after \<open>2 ^ 31 + 1\<close> writes the alerter is
  called with \<open>- (2 ^ 31)\<close>.
\<close>

theorem C1_counterexample:
  "NewOneToOne (2 ^ 45) 1 (Some log_alert) = Inr (one_slot None 0 0) \<and>
   run (map OpSet (replicate (2 ^ 63 + 1) (Some 7))) (one_slot None 0 0) [] =
     Inr (one_slot (Some \<lparr>data = Some 7, seq = 2 ^ 63\<rparr>) (2 ^ 63 + 1) 0, [], []) \<and>
   TryNext (one_slot (Some \<lparr>data = Some 7, seq = 2 ^ 63\<rparr>) (2 ^ 63 + 1) 0) [] =
     Inr (one_slot None (2 ^ 63 + 1) (2 ^ 63 + 1), [- (2 ^ 63)], (Some 7, True)) \<and>
   NewOneToOne (2 ^ 28) 1 (Some log_alert) = Inr (one_slot32 None 0 0) \<and>
   run (map OpSet (replicate (2 ^ 31 + 1) (Some 7))) (one_slot32 None 0 0) [] =
     Inr (one_slot32 (Some \<lparr>data = Some 7, seq = 2 ^ 31\<rparr>) (2 ^ 31 + 1) 0, [], []) \<and>
   TryNext (one_slot32 (Some \<lparr>data = Some 7, seq = 2 ^ 31\<rparr>) (2 ^ 31 + 1) 0) [] =
     Inr (one_slot32 None (2 ^ 31 + 1) (2 ^ 31 + 1), [- (2 ^ 31)], (Some 7, True))"
proof -
  have n: "(9223372036854775809 :: nat) = Suc 9223372036854775808" by simp
  have "run (replicate 9223372036854775809 (OpSet (Some 7))) (one_slot None 0 0) [] =
     Inr (one_slot (Some \<lparr>data = Some 7, seq = 9223372036854775808\<rparr>) 9223372036854775809 0,
          [], [])"
    unfolding n run_sets_one_slot by simp
  then have f1: "run (map OpSet (replicate (2 ^ 63 + 1) (Some 7))) (one_slot None 0 0) [] =
     Inr (one_slot (Some \<lparr>data = Some 7, seq = 2 ^ 63\<rparr>) (2 ^ 63 + 1) 0, [], [])"
    by simp
  have f2: "TryNext (one_slot (Some \<lparr>data = Some 7, seq = 2 ^ 63\<rparr>) (2 ^ 63 + 1) 0) [] =
     Inr (one_slot None (2 ^ 63 + 1) (2 ^ 63 + 1), [- (2 ^ 63)], (Some 7, True))"
    by (simp add: one_slot_def diode_eval)
  have m: "(2147483649 :: nat) = Suc 2147483648" by simp
  have "run (replicate 2147483649 (OpSet (Some 7))) (one_slot32 None 0 0) [] =
     Inr (one_slot32 (Some \<lparr>data = Some 7, seq = 2147483648\<rparr>) 2147483649 0, [], [])"
    unfolding m run_sets_one_slot32 by simp
  then have f3: "run (map OpSet (replicate (2 ^ 31 + 1) (Some 7))) (one_slot32 None 0 0) [] =
     Inr (one_slot32 (Some \<lparr>data = Some 7, seq = 2 ^ 31\<rparr>) (2 ^ 31 + 1) 0, [], [])"
    by simp
  have f4: "TryNext (one_slot32 (Some \<lparr>data = Some 7, seq = 2 ^ 31\<rparr>) (2 ^ 31 + 1) 0) [] =
     Inr (one_slot32 None (2 ^ 31 + 1) (2 ^ 31 + 1), [- (2 ^ 31)], (Some 7, True))"
    by (simp add: one_slot32_def diode_eval)
  from NewOneToOne_one_slot f1 f2 NewOneToOne_one_slot32 f3 f4 show ?thesis
    by (intro conjI)
qed

subsection \<open>Claim C2\<close>

text \<open>
  C2 (as amended). For calls on a fresh diode in which the number of \<^verbatim>\<open>Set\<close> calls plus
  the capacity stays below \<open>2 ^ 64\<close>: when the writer is never more than the capacity
  ahead of the reader, the values that the successful \<^verbatim>\<open>TryNext\<close> calls returned are, in
  order, the values passed to \<^verbatim>\<open>Set\<close> without those still pending, so all of them once
  nothing is pending; and in any case they are the written values at strictly increasing
  positions: gaps, but no value twice and none out of order.
\<close>

theorem C2_in_order_delivery:
  assumes "NewOneToOne ml sz al = Inr d0" "run ops d0 w0 = Inr (d, w, outs)"
    "length (sets_of ops) + length (buffer d0) < 2 ^ 64"
  shows "(no_overwrite (length (buffer d0)) 0 ops \<longrightarrow>
            delivered outs = take (length (sets_of ops) - pending 0 ops) (sets_of ops)) \<and>
         (\<exists>idxs. sorted_wrt (<) idxs \<and> (\<forall>i\<in>set idxs. i < length (sets_of ops)) \<and>
            delivered outs = map ((!) (sets_of ops)) idxs)"
proof (cases "buffer d0 = []")
  case True
  then have "len_buffer d0 = 0" by (simp add: len_buffer_def)
  from run_zero [OF this assms(2)] have "ops = []" "outs = []" by simp_all
  then show ?thesis by simp
next
  case False
  note i0 = NewOneToOne_diode_inv [OF assms(1) False]
  have b: "length ([] :: 'a GenericDataType list) + length (sets_of ops) + length (buffer d0) < 2 ^ 64"
    using assms(3) by simp
  have "delivered outs = take (length (sets_of ops) - pending 0 ops) (sets_of ops)"
    if "no_overwrite (length (buffer d0)) 0 ops"
    using run_no_overwrite [OF i0 assms(2) _ _ b] that by simp
  moreover from run_in_order [OF i0 assms(2) b]
  have "\<exists>idxs. sorted_wrt (<) idxs \<and> (\<forall>i\<in>set idxs. i < length (sets_of ops)) \<and>
            delivered outs = map ((!) (sets_of ops)) idxs"
    by simp
  ultimately show ?thesis by blast
qed

theorem C2_witness:
  "delivered [(Some 10, True), (Some 11, True), (Some 12, True), (Some 13, True), (None, False)] =
     sets_of (four_sets @ replicate 5 OpTryNext) \<and>
   (\<exists>idxs. sorted_wrt (<) idxs \<and>
      (\<forall>i\<in>set idxs. i < length (sets_of (five_sets @ replicate 5 OpTryNext))) \<and>
      [Some 11, Some 12, Some 13, Some 14] =
        map ((!) (sets_of (five_sets @ replicate 5 OpTryNext))) idxs)"
proof -
  have h: "length (sets_of (four_sets @ replicate 5 OpTryNext)) + length (buffer diode4) < 2 ^ 64"
    "length (sets_of (five_sets @ replicate 5 OpTryNext)) + length (buffer diode4) < 2 ^ 64"
    "no_overwrite (length (buffer diode4)) 0 (four_sets @ replicate 5 OpTryNext)"
    "length (sets_of (four_sets @ replicate 5 OpTryNext)) -
       pending 0 (four_sets @ replicate 5 OpTryNext) = 4"
    "length (sets_of (four_sets @ replicate 5 OpTryNext)) = 4"
    by (simp_all add: four_sets_def five_sets_def diode4_def replicate_5)
  have d: "delivered [(Some 11, True), (Some 12, True), (Some 13, True), (Some (14 :: nat), True),
      (None, False)] = [Some 11, Some 12, Some 13, Some 14]"
    by simp
  from C2_in_order_delivery [OF NewOneToOne_diode4 run_four_sets_drain h(1)] h(3)
  have "delivered [(Some 10, True), (Some 11, True), (Some 12, True), (Some 13, True), (None, False)] =
     take 4 (sets_of (four_sets @ replicate 5 OpTryNext))"
    unfolding h(4) by blast
  then have a: "delivered [(Some 10, True), (Some 11, True), (Some 12, True), (Some 13, True),
      (None, False)] = sets_of (four_sets @ replicate 5 OpTryNext)"
    using h(5) by simp
  from C2_in_order_delivery [OF NewOneToOne_diode4 run_five_sets_drain h(2)]
  have b: "\<exists>idxs. sorted_wrt (<) idxs \<and>
      (\<forall>i\<in>set idxs. i < length (sets_of (five_sets @ replicate 5 OpTryNext))) \<and>
      [Some 11, Some 12, Some 13, Some 14] =
        map ((!) (sets_of (five_sets @ replicate 5 OpTryNext))) idxs"
    unfolding d by blast
  from a b show ?thesis by (intro conjI)
qed

text \<open>
  With capacity 1: \<open>2 ^ 64 - 1\<close> rounds of one write and one read, then a read, the write
  of 8 and two reads. The writer is never more than one value ahead and nothing is
  pending at the end, yet the reads after the write of 8 return \<^verbatim>\<open>(nil, false)\<close>: the first
  read at the top of the range moved \<^verbatim>\<open>readIndex\<close> back, and the bucket of 8 is dropped
  for its \<^verbatim>\<open>seq\<close>.
\<close>

theorem C2_counterexample:
  "NewOneToOne (2 ^ 45) 1 (Some log_alert) = Inr (one_slot None 0 0) \<and>
   run wrap_calls (one_slot None 0 0) [] = Inr (one_slot None 0 (2 ^ 64 - 1), [- 1], wrap_outs) \<and>
   no_overwrite 1 0 wrap_calls \<and> pending 0 wrap_calls = 0 \<and>
   sets_of wrap_calls = replicate (2 ^ 64 - 1) (Some 7) @ [Some 8] \<and>
   delivered wrap_outs = replicate (2 ^ 64 - 1) (Some 7) \<and>
   delivered wrap_outs \<noteq> sets_of wrap_calls"
proof -
  have f1: "no_overwrite 1 0 wrap_calls"
    using rounds_facts(3) [of 0 "2 ^ 64 - 1" "Some 7"]
    by (simp add: wrap_calls_def no_overwrite_append rounds_facts(2))
  have f2: "pending 0 wrap_calls = 0"
    by (simp add: wrap_calls_def pending_append rounds_facts(2))
  have f3: "sets_of wrap_calls = replicate (2 ^ 64 - 1) (Some 7) @ [Some 8]"
    by (simp add: wrap_calls_def sets_of_append rounds_facts(1))
  have f4: "delivered wrap_outs = replicate (2 ^ 64 - 1) (Some 7)"
    by (simp add: wrap_outs_def delivered_append delivered_replicate)
  have "length (delivered wrap_outs) \<noteq> length (sets_of wrap_calls)"
    unfolding f3 f4 by simp
  then have f5: "delivered wrap_outs \<noteq> sets_of wrap_calls"
    by auto
  from NewOneToOne_one_slot run_wrap_calls f1 f2 f3 f4 f5 show ?thesis
    by (intro conjI)
qed

subsection \<open>Claim C3\<close>

text \<open>
  C3 (as amended). In every state that calls on a fresh diode reach while the number of
  \<^verbatim>\<open>Set\<close> calls plus the capacity stays below \<open>2 ^ 64\<close>, \<^verbatim>\<open>readIndex \<le> writeIndex\<close>; and
  a further \<^verbatim>\<open>Set\<close> or \<^verbatim>\<open>TryNext\<close> from that state decreases neither cursor and keeps
  \<^verbatim>\<open>readIndex \<le> writeIndex\<close>.
\<close>

theorem C3_monotonic_cursors:
  assumes "NewOneToOne ml sz al = Inr d0" "run ops d0 w0 = Inr (d, w, outs)"
    "length (sets_of ops) + length (buffer d0) < 2 ^ 64"
  shows "readIndex d \<le> writeIndex d \<and>
    (\<forall>v d'. Set d v = Inr d' \<longrightarrow>
       readIndex d \<le> readIndex d' \<and> writeIndex d \<le> writeIndex d' \<and> readIndex d' \<le> writeIndex d') \<and>
    (\<forall>u d' u' res. TryNext d u = Inr (d', u', res) \<longrightarrow>
       readIndex d \<le> readIndex d' \<and> writeIndex d \<le> writeIndex d' \<and> readIndex d' \<le> writeIndex d')"
proof (cases "buffer d0 = []")
  case True
  then have z: "len_buffer d0 = 0" by (simp add: len_buffer_def)
  from run_zero [OF z assms(2)] have "d = d0" by simp
  then show ?thesis
    using z NewOneToOne_Inr(3,4) [OF assms(1)] by (simp add: Set_zero TryNext_zero)
next
  case False
  from reachable_diode_inv [OF assms False] obtain r where
    i: "diode_inv (length (buffer d0)) (sets_of ops) r d" by blast
  let ?c = "length (buffer d0)" and ?n = "length (sets_of ops)"
  from i have f: "0 < ?c" "r \<le> ?n" "?n + ?c < 2 ^ 64" "writeIndex d = of_nat ?n"
    "readIndex d = of_nat r"
    by (simp_all add: diode_inv_def)
  have "Suc ?n \<le> ?n + ?c" using f(1) by arith
  with f have b: "r < 2 ^ 64" "?n < 2 ^ 64" "Suc ?n < 2 ^ 64"
    by simp_all
  have le: "readIndex d \<le> writeIndex d"
    unfolding f using b f(2) by (simp add: u64_le_iff)
  have set: "readIndex d \<le> readIndex d' \<and> writeIndex d \<le> writeIndex d' \<and> readIndex d' \<le> writeIndex d'"
    if "Set d v = Inr d'" for v d'
  proof -
    from that Set_diode_inv_eq [OF i, of v]
    have "readIndex d' = of_nat r" "writeIndex d' = of_nat (Suc ?n)"
      using f by auto
    moreover have "(of_nat ?n :: uint64) \<le> of_nat (Suc ?n)" "(of_nat r :: uint64) \<le> of_nat (Suc ?n)"
      using b f(2) by (simp_all only: u64_le_iff)
    ultimately show ?thesis
      unfolding f by simp
  qed
  have trynext: "readIndex d \<le> readIndex d' \<and> writeIndex d \<le> writeIndex d' \<and> readIndex d' \<le> writeIndex d'"
    if t: "TryNext d u = Inr (d', u', res)" for u d' u' res
  proof (cases "max r (?n - ?c) < ?n")
    case True
    let ?r1 = "max r (?n - ?c)"
    from TryNext_diode_inv(1) [OF i True, of u] t have "diode_inv ?c (sets_of ops) (Suc ?r1) d'"
      by auto
    then have "readIndex d' = of_nat (Suc ?r1)" "writeIndex d' = of_nat ?n"
      by (simp_all add: diode_inv_def)
    moreover have k: "r \<le> Suc ?r1" "Suc ?r1 \<le> ?n" "Suc ?r1 < 2 ^ 64"
      using b(2) True by arith+
    have "(of_nat r :: uint64) \<le> of_nat (Suc ?r1)" "(of_nat (Suc ?r1) :: uint64) \<le> of_nat ?n"
      using b k by (simp_all only: u64_le_iff)
    ultimately show ?thesis
      unfolding f by simp
  next
    case False
    from TryNext_diode_inv(2) [OF i False, of u] t have "d' = d" by simp
    then show ?thesis using le by simp
  qed
  from le set trynext show ?thesis by blast
qed

theorem C3_witness:
  "readIndex diode4_full \<le> writeIndex diode4_full \<and>
   (\<exists>d'. Set diode4_full (Some 15) = Inr d' \<and> readIndex d' = 0 \<and> writeIndex d' = 6) \<and>
   (\<exists>d' u' res. TryNext diode4_full [] = Inr (d', u', res) \<and> readIndex d' = 2 \<and> writeIndex d' = 5)"
proof -
  have l: "length (sets_of five_sets) + length (buffer diode4) < 2 ^ 64"
    by (simp add: five_sets_def diode4_def)
  have s: "\<exists>d'. Set diode4_full (Some 15) = Inr d' \<and> readIndex d' = 0 \<and> writeIndex d' = 6"
    by (simp add: diode4_full_def diode_eval)
  have t: "\<exists>d' u' res. TryNext diode4_full [] = Inr (d', u', res) \<and> readIndex d' = 2 \<and> writeIndex d' = 5"
    by (auto simp: diode4_full_def diode_eval)
  from C3_monotonic_cursors [OF NewOneToOne_diode4 run_five_sets [of "[]"] l] s t
  show ?thesis by blast
qed

text \<open>
  With capacity 1: after \<open>2 ^ 64 - 1\<close> calls of \<^verbatim>\<open>Set\<close> the write cursor is at its
  maximum and the next \<^verbatim>\<open>Set\<close> wraps it to 0; a read before them leaves \<^verbatim>\<open>readIndex = 1\<close>
  above the wrapped \<^verbatim>\<open>writeIndex = 0\<close>.
\<close>

theorem C3_counterexample:
  "NewOneToOne (2 ^ 45) 1 (Some log_alert) = Inr (one_slot None 0 0) \<and>
   run (replicate (2 ^ 64 - 1) (OpSet (Some 7))) (one_slot None 0 0) [] =
     Inr (one_slot (Some \<lparr>data = Some 7, seq = 2 ^ 64 - 2\<rparr>) (2 ^ 64 - 1) 0, [], []) \<and>
   Set (one_slot (Some \<lparr>data = Some 7, seq = 2 ^ 64 - 2\<rparr>) (2 ^ 64 - 1) 0) (Some 7) =
     Inr (one_slot (Some \<lparr>data = Some 7, seq = 2 ^ 64 - 1\<rparr>) 0 0) \<and>
   \<not> writeIndex (one_slot (Some \<lparr>data = Some 7, seq = 2 ^ 64 - 2\<rparr>) (2 ^ 64 - 1) 0)
       \<le> writeIndex (one_slot (Some \<lparr>data = Some 7, seq = 2 ^ 64 - 1\<rparr>) 0 0) \<and>
   run ([OpSet (Some 7), OpTryNext] @ replicate (2 ^ 64 - 1) (OpSet (Some 7))) (one_slot None 0 0) [] =
     Inr (one_slot (Some \<lparr>data = Some 7, seq = 2 ^ 64 - 1\<rparr>) 0 1, [], [(Some 7, True)]) \<and>
   \<not> readIndex (one_slot (Some \<lparr>data = Some 7, seq = 2 ^ 64 - 1\<rparr>) 0 1)
       \<le> writeIndex (one_slot (Some \<lparr>data = Some 7, seq = 2 ^ 64 - 1\<rparr>) 0 1)"
proof -
  have n: "(18446744073709551615 :: nat) = Suc 18446744073709551614" by simp
  have a: "run (replicate 18446744073709551615 (OpSet (Some 7))) (one_slot None 0 0) [] =
     Inr (one_slot (Some \<lparr>data = Some 7, seq = - 2\<rparr>) (- 1) 0, [], [])"
    unfolding n run_sets_one_slot by (simp add: u64_wrap)
  have b: "run (replicate 18446744073709551615 (OpSet (Some 7))) (one_slot None 1 1) [] =
     Inr (one_slot (Some \<lparr>data = Some 7, seq = - 1\<rparr>) 0 1, [], [])"
    unfolding n run_sets_one_slot by (simp add: u64_wrap)
  have c: "run [OpSet (Some 7), OpTryNext] (one_slot None 0 0) [] =
      Inr (one_slot None 1 1, [], [(Some 7, True)])"
    using run_rounds_one_slot [of 1 "Some 7" 0 "[]"] by simp
  have f1: "run (replicate (2 ^ 64 - 1) (OpSet (Some 7))) (one_slot None 0 0) [] =
     Inr (one_slot (Some \<lparr>data = Some 7, seq = 2 ^ 64 - 2\<rparr>) (2 ^ 64 - 1) 0, [], [])"
    by (simp add: a u64_wrap)
  have f2: "Set (one_slot (Some \<lparr>data = Some 7, seq = 2 ^ 64 - 2\<rparr>) (2 ^ 64 - 1) 0) (Some 7) =
     Inr (one_slot (Some \<lparr>data = Some 7, seq = 2 ^ 64 - 1\<rparr>) 0 0)"
    by (simp add: Set_one_slot u64_wrap)
  have f3: "\<not> writeIndex (one_slot (Some \<lparr>data = Some 7, seq = 2 ^ 64 - 2\<rparr>) (2 ^ 64 - 1) 0)
       \<le> writeIndex (one_slot (Some \<lparr>data = Some 7, seq = 2 ^ 64 - 1\<rparr>) 0 0)"
    by (simp add: one_slot_def u64_wrap)
  have f4: "run ([OpSet (Some 7), OpTryNext] @ replicate (2 ^ 64 - 1) (OpSet (Some 7)))
      (one_slot None 0 0) [] =
     Inr (one_slot (Some \<lparr>data = Some 7, seq = 2 ^ 64 - 1\<rparr>) 0 1, [], [(Some 7, True)])"
    unfolding run_append c by (simp add: b u64_wrap)
  have f5: "\<not> readIndex (one_slot (Some \<lparr>data = Some 7, seq = 2 ^ 64 - 1\<rparr>) 0 1)
       \<le> writeIndex (one_slot (Some \<lparr>data = Some 7, seq = 2 ^ 64 - 1\<rparr>) 0 1)"
    by (simp add: one_slot_def)
  from NewOneToOne_one_slot f1 f2 f3 f4 f5 show ?thesis
    by (intro conjI)
qed

subsection \<open>Claim C4\<close>

text \<open>
  C4. A value that \<^verbatim>\<open>TryNext\<close> returns with \<^verbatim>\<open>ok = true\<close> is the \<^verbatim>\<open>data\<close> of a bucket that was
  in the buffer when the call began and that the loop left with; its \<^verbatim>\<open>seq\<close> is the
  \<^verbatim>\<open>readIndex\<close> of the state in which the loop is left, one less than the \<^verbatim>\<open>readIndex\<close>
  the call returns with. In one pass, the bucket swapped out of the slot after the
  catch-up leaves the loop exactly when its \<^verbatim>\<open>seq\<close> is the \<^verbatim>\<open>readIndex\<close> of that moment;
  otherwise the slot is cleared, \<^verbatim>\<open>readIndex\<close> moves on and the pass yields no value.
  A call that meets a bucket with another \<^verbatim>\<open>seq\<close> discards it: the call is the call made
  from the state with that slot nil and \<^verbatim>\<open>readIndex\<close> one further, it returns, and the
  slot is nil in the state it returns.
\<close>

theorem C4_sequence_match:
  "(TryNext d w = Inr (d', w', (v, True)) \<longrightarrow>
      (\<exists>b dl. TryNext_loop d w = Inr (dl, w', Some b) \<and> Some b \<in> set (buffer d) \<and>
         data b = v \<and> seq b = readIndex dl \<and> readIndex d' = seq b + 1)) \<and>
   (len_buffer e \<noteq> 0 \<and> catch_up e u = (d1, w1) \<and>
    buffer d1 ! unat (readIndex d1 mod len_buffer d1) = Some b1 \<longrightarrow>
      TryNext_pass e u =
        (if seq b1 = readIndex d1
         then Inr (Found (d1\<lparr>buffer := (buffer d1)[unat (readIndex d1 mod len_buffer d1) := None]\<rparr>)
                    w1 b1)
         else Inr (Again (d1\<lparr>buffer := (buffer d1)[unat (readIndex d1 mod len_buffer d1) := None],
                             readIndex := readIndex d1 + 1\<rparr>) w1))) \<and>
   (len_buffer e \<noteq> 0 \<and> catch_up e u = (d1, w1) \<and>
    buffer d1 ! unat (readIndex d1 mod len_buffer d1) = Some b1 \<and> seq b1 \<noteq> readIndex d1 \<longrightarrow>
      TryNext e u =
        TryNext (d1\<lparr>buffer := (buffer d1)[unat (readIndex d1 mod len_buffer d1) := None],
                    readIndex := readIndex d1 + 1\<rparr>) w1 \<and>
      (\<exists>e' u' res. TryNext e u = Inr (e', u', res) \<and>
         buffer e' ! unat (readIndex d1 mod len_buffer d1) = None))"
proof -
  have p1: "\<exists>b dl. TryNext_loop d w = Inr (dl, w', Some b) \<and> Some b \<in> set (buffer d) \<and>
         data b = v \<and> seq b = readIndex dl \<and> readIndex d' = seq b + 1"
    if t: "TryNext d w = Inr (d', w', (v, True))"
  proof -
    from t have nz: "len_buffer d \<noteq> 0"
      using TryNext_zero [of d w] by auto
    from TryNext_loop_total [OF nz, of w] obtain dl wl res where
      l: "TryNext_loop d w = Inr (dl, wl, res)"
        "\<forall>b. res = Some b \<longrightarrow> Some b \<in> set (buffer d) \<and> seq b = readIndex dl"
      by blast
    from t l(1) obtain b where b: "res = Some b" "wl = w'" "data b = v"
      "d' = dl\<lparr>readIndex := readIndex dl + 1\<rparr>"
      by (cases res) (auto simp: TryNext_def)
    with l show ?thesis
      by auto
  qed
  have p2: "TryNext_pass e u =
        (if seq b1 = readIndex d1
         then Inr (Found (d1\<lparr>buffer := (buffer d1)[unat (readIndex d1 mod len_buffer d1) := None]\<rparr>)
                    w1 b1)
         else Inr (Again (d1\<lparr>buffer := (buffer d1)[unat (readIndex d1 mod len_buffer d1) := None],
                             readIndex := readIndex d1 + 1\<rparr>) w1))"
    if a: "len_buffer e \<noteq> 0 \<and> catch_up e u = (d1, w1) \<and>
      buffer d1 ! unat (readIndex d1 mod len_buffer d1) = Some b1"
    using a TryNext_pass_cases [of e u d1 w1] by simp
  have p3: "TryNext e u =
        TryNext (d1\<lparr>buffer := (buffer d1)[unat (readIndex d1 mod len_buffer d1) := None],
                    readIndex := readIndex d1 + 1\<rparr>) w1 \<and>
      (\<exists>e' u' res. TryNext e u = Inr (e', u', res) \<and>
         buffer e' ! unat (readIndex d1 mod len_buffer d1) = None)"
    if a: "len_buffer e \<noteq> 0 \<and> catch_up e u = (d1, w1) \<and>
      buffer d1 ! unat (readIndex d1 mod len_buffer d1) = Some b1 \<and> seq b1 \<noteq> readIndex d1"
  proof -
    let ?idx = "unat (readIndex d1 mod len_buffer d1)"
    let ?d2 = "d1\<lparr>buffer := (buffer d1)[?idx := None], readIndex := readIndex d1 + 1\<rparr>"
    from a have nz: "len_buffer e \<noteq> 0" and cu: "catch_up e u = (d1, w1)"
      and b: "buffer d1 ! ?idx = Some b1" "seq b1 \<noteq> readIndex d1"
      by simp_all
    have go: "TryNext e u = TryNext ?d2 w1"
      using nz cu b by (rule TryNext_stale)
    have nz1: "len_buffer d1 \<noteq> 0"
      using nz catch_up_len_buffer [of e u] cu by simp
    have "?idx < length (buffer d1)"
      by (rule idx_in_bounds [OF nz1])
    then have nil: "buffer ?d2 ! ?idx = None"
      by simp
    from TryNext_total [OF nz, of u] obtain e' u' res where
      t: "TryNext e u = Inr (e', u', res)" by blast
    with go have "TryNext ?d2 w1 = Inr (e', u', res)" by simp
    from TryNext_keeps_nil [OF this nil] have "buffer e' ! ?idx = None" .
    with go t show ?thesis by blast
  qed
  from p1 p2 p3 show ?thesis by blast
qed

theorem C4_witness:
  "TryNext diode4_full [] =
     Inr (diode4_full\<lparr>buffer := (buffer diode4_full)[1 := None], readIndex := 2\<rparr>, [1],
          (Some 11, True)) \<and>
   (\<exists>b dl. TryNext_loop diode4_full [] = Inr (dl, [1], Some b) \<and>
      Some b \<in> set (buffer diode4_full) \<and> data b = Some 11 \<and> seq b = readIndex dl \<and> seq b + 1 = 2) \<and>
   catch_up diode4_stale [] = (diode4_stale, []) \<and>
   buffer diode4_stale ! 1 = Some \<lparr>data = Some 11, seq = 9\<rparr> \<and>
   TryNext_pass diode4_stale [] =
     Inr (Again (diode4_stale\<lparr>buffer := (buffer diode4_stale)[1 := None], readIndex := 2\<rparr>) []) \<and>
   TryNext diode4_stale [] =
     TryNext (diode4_stale\<lparr>buffer := (buffer diode4_stale)[1 := None], readIndex := 2\<rparr>) [] \<and>
   TryNext diode4_stale [] =
     Inr (diode4_stale\<lparr>buffer := [Some \<lparr>data = Some 14, seq = 4\<rparr>, None, None,
                                     Some \<lparr>data = Some 13, seq = 3\<rparr>],
                        readIndex := 3\<rparr>, [], (Some 12, True)) \<and>
   (\<exists>e' u' res. TryNext diode4_stale [] = Inr (e', u', res) \<and> buffer e' ! 1 = None)"
proof -
  have t: "TryNext diode4_full [] =
     Inr (diode4_full\<lparr>buffer := (buffer diode4_full)[1 := None], readIndex := 2\<rparr>, [1],
          (Some 11, True))"
    by (simp add: diode4_full_def diode_eval)
  have s: "len_buffer diode4_stale \<noteq> 0" "catch_up diode4_stale [] = (diode4_stale, [])"
    "unat (readIndex diode4_stale mod len_buffer diode4_stale) = 1"
    "buffer diode4_stale ! 1 = Some \<lparr>data = Some 11, seq = 9\<rparr>"
    "seq \<lparr>data = Some (11 :: nat), seq = 9\<rparr> \<noteq> readIndex diode4_stale"
    "readIndex diode4_stale + 1 = 2"
    by (simp_all add: diode4_stale_def diode_eval)
  have r: "TryNext diode4_stale [] =
     Inr (diode4_stale\<lparr>buffer := [Some \<lparr>data = Some 14, seq = 4\<rparr>, None, None,
                                     Some \<lparr>data = Some 13, seq = 3\<rparr>],
                        readIndex := 3\<rparr>, [], (Some 12, True))"
    by (simp add: diode4_stale_def diode_eval)
  note c = C4_sequence_match [where d = diode4_full and w = "[]" and v = "Some 11" and w' = "[1]"
      and d' = "diode4_full\<lparr>buffer := (buffer diode4_full)[1 := None], readIndex := 2\<rparr>"
      and e = diode4_stale and u = "[]" and ?d1.0 = diode4_stale and ?w1.0 = "[]" and ?b1.0 = "\<lparr>data = Some 11, seq = 9\<rparr>"]
  from c t have c1: "\<exists>b dl. TryNext_loop diode4_full [] = Inr (dl, [1], Some b) \<and>
      Some b \<in> set (buffer diode4_full) \<and> data b = Some 11 \<and> seq b = readIndex dl \<and> seq b + 1 = 2"
    by auto
  from c s have c2: "TryNext_pass diode4_stale [] =
     Inr (Again (diode4_stale\<lparr>buffer := (buffer diode4_stale)[1 := None], readIndex := 2\<rparr>) [])"
    by (simp add: diode4_stale_def)
  note c' = c [unfolded s(3) s(6)]
  from c' s(1,2,4,5) have c3: "TryNext diode4_stale [] =
       TryNext (diode4_stale\<lparr>buffer := (buffer diode4_stale)[1 := None], readIndex := 2\<rparr>) [] \<and>
     (\<exists>e' u' res. TryNext diode4_stale [] = Inr (e', u', res) \<and> buffer e' ! 1 = None)"
    by blast
  from t c1 s(2,4) c2 c3 r show ?thesis
    by blast
qed

subsection \<open>Claim C5\<close>

text \<open>
  C5. On a diode built with a size of at least 1, \<^verbatim>\<open>TryNext\<close> before any \<^verbatim>\<open>Set\<close> returns
  \<^verbatim>\<open>(nil, false)\<close> and changes nothing. In any state of a diode of capacity at least 1 in
  which every slot is nil, each of any number of \<^verbatim>\<open>TryNext\<close> calls in a row returns
  \<^verbatim>\<open>(nil, false)\<close>. After a \<^verbatim>\<open>TryNext\<close> that returned \<^verbatim>\<open>ok = false\<close> (its payload is nil), each
  of any number of further \<^verbatim>\<open>TryNext\<close> calls returns \<^verbatim>\<open>(nil, false)\<close> and changes nothing.
  In particular this holds in a state with \<^verbatim>\<open>readIndex = writeIndex\<close> reached from a fresh
  diode while the number of \<^verbatim>\<open>Set\<close> calls plus the capacity is below \<open>2 ^ 64\<close>.
\<close>

theorem C5_empty_and_drained:
  "(NewOneToOne ml sz al = Inr d0 \<and> sz \<noteq> 0 \<longrightarrow> TryNext d0 w0 = Inr (d0, w0, (None, False))) \<and>
   (len_buffer d \<noteq> 0 \<and> (\<forall>x\<in>set (buffer d). x = None) \<longrightarrow>
      (\<exists>d' w'. run (replicate n OpTryNext) d w = Inr (d', w', replicate n (None, False)) \<and>
         buffer d' = buffer d)) \<and>
   (TryNext e u = Inr (e', u', (x, False)) \<longrightarrow>
      x = None \<and> run (replicate n OpTryNext) e' v = Inr (e', v, replicate n (None, False))) \<and>
   (NewOneToOne ml sz al = Inr d0 \<and> sz \<noteq> 0 \<and> run ops d0 w0 = Inr (f, w1, outs) \<and>
    length (sets_of ops) + length (buffer d0) < 2 ^ 64 \<and> readIndex f = writeIndex f \<longrightarrow>
      run (replicate n OpTryNext) f w1 = Inr (f, w1, replicate n (None, False)))"
proof -
  have p1: "TryNext d0 w0 = Inr (d0, w0, (None, False))"
    if a: "NewOneToOne ml sz al = Inr d0 \<and> sz \<noteq> 0"
  proof -
  note n = NewOneToOne_Inr [of ml sz al d0]
  from a n have nz: "len_buffer d0 \<noteq> 0" by simp
  have "unat (readIndex d0 mod len_buffer d0) < length (buffer d0)"
    by (rule idx_in_bounds [OF nz])
  then have "buffer d0 ! unat (readIndex d0 mod len_buffer d0) = None"
    using a n(2) by simp
  moreover have "\<not> readIndex d0 + len_buffer d0 < writeIndex d0"
    using a n(3) by simp
  ultimately show "TryNext d0 w0 = Inr (d0, w0, (None, False))"
    by (intro TryNext_drained [OF nz])
  qed
  have p2: "\<exists>d' w'. run (replicate n OpTryNext) d w = Inr (d', w', replicate n (None, False)) \<and>
         buffer d' = buffer d"
    if a: "len_buffer d \<noteq> 0 \<and> (\<forall>x\<in>set (buffer d). x = None)"
  proof (cases n)
    case 0
    then show ?thesis by simp
  next
    case (Suc m)
    from a have "len_buffer d \<noteq> 0" "\<forall>x\<in>set (buffer d). x = None" by simp_all
    from TryNext_all_None [OF this, of w m] obtain d' w' where
      t: "TryNext d w = Inr (d', w', (None, False))" "buffer d' = buffer d"
      "run (replicate m OpTryNext) d' w' = Inr (d', w', replicate m (None, False))"
      by blast
    have "run (replicate n OpTryNext) d w = Inr (d', w', replicate n (None, False))"
      unfolding Suc using t(1,3) by simp
    with t(2) show ?thesis by blast
  qed
  have p3: "x = None \<and> run (replicate n OpTryNext) e' v = Inr (e', v, replicate n (None, False))"
    if t: "TryNext e u = Inr (e', u', (x, False))"
  proof -
  from t have nz: "len_buffer e \<noteq> 0"
    using TryNext_zero [of e u] by auto
  from TryNext_loop_total [OF nz, of u] obtain dl wl res where
    l: "TryNext_loop e u = Inr (dl, wl, res)" by blast
  with t have r: "res = None \<and> dl = e' \<and> x = None"
    by (cases res) (simp_all add: TryNext_def)
  from r l have l': "TryNext_loop e u = Inr (e', wl, None)" by simp
  from TryNext_loop_None [OF l'] have
    "len_buffer e' \<noteq> 0" "\<not> readIndex e' + len_buffer e' < writeIndex e'"
    "buffer e' ! unat (readIndex e' mod len_buffer e') = None"
    by simp_all
  then have "run (replicate n OpTryNext) e' v = Inr (e', v, replicate n (None, False))"
    by (rule run_TryNext_drained)
  with r show "x = None \<and> run (replicate n OpTryNext) e' v = Inr (e', v, replicate n (None, False))"
    by simp
  qed
  have p4: "run (replicate n OpTryNext) f w1 = Inr (f, w1, replicate n (None, False))"
    if a: "NewOneToOne ml sz al = Inr d0 \<and> sz \<noteq> 0 \<and> run ops d0 w0 = Inr (f, w1, outs) \<and>
    length (sets_of ops) + length (buffer d0) < 2 ^ 64 \<and> readIndex f = writeIndex f"
  proof -
  from a have ne: "buffer d0 \<noteq> []"
    using NewOneToOne_Inr(5) [of ml sz al d0] by (auto simp: len_buffer_def)
  from a reachable_diode_inv [OF _ _ _ ne] obtain r where
    i: "diode_inv (length (buffer d0)) (sets_of ops) r f" by blast
  let ?n = "length (sets_of ops)"
  from i have ri: "readIndex f = of_nat r" "writeIndex f = of_nat ?n" "r \<le> ?n" "?n < 2 ^ 64"
    by (simp_all add: diode_inv_def)
  from a have "readIndex f = writeIndex f" by simp
  with ri(1,2) have "(of_nat r :: uint64) = of_nat ?n" by metis
  then have "r = ?n"
    using u64_eq_iff [of r ?n] ri(3,4) by simp
  then have "\<not> max r (?n - length (buffer d0)) < ?n" by simp
  from TryNext_diode_inv(2) [OF i this] have "TryNext f w = Inr (f, w, (None, False))" for w .
  then show "run (replicate n OpTryNext) f w1 = Inr (f, w1, replicate n (None, False))"
    by (induction n) simp_all
  qed
  from p1 p2 p3 p4 show ?thesis by blast
qed

theorem C5_witness:
  "TryNext diode4 [] = Inr (diode4, [], (None, False)) \<and>
   (\<exists>d' w'. run (replicate 3 OpTryNext) diode4 [] = Inr (d', w', replicate 3 (None, False)) \<and>
      buffer d' = buffer diode4) \<and>
   run (replicate 3 OpTryNext) diode4 [2] = Inr (diode4, [2], replicate 3 (None, False)) \<and>
   run (replicate 3 OpTryNext) diode4_drained [1] = Inr (diode4_drained, [1], replicate 3 (None, False))"
proof -
  have h: "(4 :: 64 word) \<noteq> 0" "len_buffer diode4 \<noteq> 0" "\<forall>x\<in>set (buffer diode4). x = None"
    "length (sets_of (five_sets @ replicate 5 OpTryNext)) + length (buffer diode4) < 2 ^ 64"
    "readIndex diode4_drained = writeIndex diode4_drained"
    by (simp_all add: diode4_def diode4_drained_def five_sets_def len_buffer_def replicate_5)
  note c = C5_empty_and_drained [where sz = 4 and al = "Some log_alert" and ?d0.0 = diode4
      and ?w0.0 = "[]" and d = diode4 and w = "[]" and n = 3 and e = diode4 and u = "[]"
      and e' = diode4 and u' = "[]" and x = None and v = "[2]"
      and ops = "five_sets @ replicate 5 OpTryNext" and f = diode4_drained and ?w1.0 = "[1]"
      and outs = "[(Some 11, True), (Some 12, True), (Some 13, True), (Some 14, True), (None, False)]"]
  from c NewOneToOne_diode4 h(1) have t: "TryNext diode4 [] = Inr (diode4, [], (None, False))"
    by blast
  from c h NewOneToOne_diode4 run_five_sets_drain t show ?thesis
    by blast
qed

subsection \<open>Claim C6\<close>

text \<open>
  C6 (as amended). From construction: when the calls made on a fresh diode hold at most
  capacity many \<^verbatim>\<open>Set\<close> calls, the world the alerter acts on is unchanged at the end,
  whatever the alerter is: no \<^verbatim>\<open>TryNext\<close> has invoked it. From a full drain: the same for
  the calls that follow a state with \<^verbatim>\<open>readIndex = writeIndex\<close>, as long as the number of
  all \<^verbatim>\<open>Set\<close> calls plus the capacity stays below \<open>2 ^ 64\<close>.
\<close>

theorem C6_no_alert_without_overwrite:
  "(NewOneToOne ml sz al = Inr d0 \<and> run ops d0 w0 = Inr (d, w, outs) \<and>
    length (sets_of ops) \<le> length (buffer d0) \<longrightarrow> w = w0) \<and>
   (NewOneToOne ml sz al = Inr d0 \<and> run ops0 d0 w0 = Inr (e, w1, outs0) \<and>
    readIndex e = writeIndex e \<and> run ops1 e w1 = Inr (d', w', outs1) \<and>
    length (sets_of ops1) \<le> length (buffer d0) \<and>
    length (sets_of ops0) + length (sets_of ops1) + length (buffer d0) < 2 ^ 64 \<longrightarrow> w' = w1)"
proof -
  have p1: "w = w0"
    if a: "NewOneToOne ml sz al = Inr d0 \<and> run ops d0 w0 = Inr (d, w, outs) \<and>
      length (sets_of ops) \<le> length (buffer d0)"
  proof (cases "buffer d0 = []")
    case True
    then have "len_buffer d0 = 0" by (simp add: len_buffer_def)
    from run_zero [OF this] a show ?thesis by blast
  next
    case False
    from a have n: "NewOneToOne ml sz al = Inr d0" by simp
    have "length (sets_of ops) + length (buffer d0) < 2 ^ 64"
      using NewOneToOne_length_bound [OF n] a by simp
    with run_no_alert [OF NewOneToOne_diode_inv [OF n False], of ops w0 d w outs] a
    show ?thesis by simp
  qed
  have p2: "w' = w1"
    if a: "NewOneToOne ml sz al = Inr d0 \<and> run ops0 d0 w0 = Inr (e, w1, outs0) \<and>
      readIndex e = writeIndex e \<and> run ops1 e w1 = Inr (d', w', outs1) \<and>
      length (sets_of ops1) \<le> length (buffer d0) \<and>
      length (sets_of ops0) + length (sets_of ops1) + length (buffer d0) < 2 ^ 64"
  proof (cases "buffer d0 = []")
    case True
    then have z: "len_buffer d0 = 0" by (simp add: len_buffer_def)
    from run_zero [OF z] a have "e = d0" by blast
    with run_zero [of e ops1 w1 d' w' outs1] z a show ?thesis by simp
  next
    case False
    let ?n = "length (sets_of ops0)"
    from a have b: "?n + length (buffer d0) < 2 ^ 64" by simp
    from a reachable_diode_inv [OF _ _ b False] obtain r where
      i: "diode_inv (length (buffer d0)) (sets_of ops0) r e" by blast
    then have ri: "readIndex e = of_nat r" "writeIndex e = of_nat ?n" "r \<le> ?n" "?n < 2 ^ 64"
      by (simp_all add: diode_inv_def)
    from a have "readIndex e = writeIndex e" by simp
    with ri(1,2) have "(of_nat r :: uint64) = of_nat ?n" by metis
    then have "r = ?n"
      using u64_eq_iff [of r ?n] ri(3,4) by simp
    with run_no_alert [OF i, of ops1 w1 d' w' outs1] a show ?thesis
      by simp
  qed
  from p1 p2 show ?thesis by blast
qed

theorem C6_witness:
  "run (four_sets @ replicate 5 OpTryNext) diode4 [] =
     Inr (\<lparr>buffer = [None, None, None, None], writeIndex = 4, readIndex = 4, alerter = log_alert\<rparr>,
          [],
          [(Some 10, True), (Some 11, True), (Some 12, True), (Some 13, True), (None, False)]) \<and>
   ([] :: int list) = [] \<and>
   run ([OpSet (Some 15), OpSet (Some 16)] @ replicate 3 OpTryNext) diode4_drained [1] =
     Inr (\<lparr>buffer = [None, None, None, None], writeIndex = 7, readIndex = 7, alerter = log_alert\<rparr>,
          [1], [(Some 15, True), (Some 16, True), (None, False)]) \<and>
   [1 :: int] = [1]"
proof -
  have h: "length (sets_of (four_sets @ replicate 5 OpTryNext)) \<le> length (buffer diode4)"
    "readIndex diode4_drained = writeIndex diode4_drained"
    "length (sets_of ([OpSet (Some 15), OpSet (Some (16 :: nat))] @ replicate 3 OpTryNext))
       \<le> length (buffer diode4)"
    "length (sets_of (five_sets @ replicate 5 OpTryNext)) +
      length (sets_of ([OpSet (Some 15), OpSet (Some (16 :: nat))] @ replicate 3 OpTryNext)) +
      length (buffer diode4) < 2 ^ 64"
    by (simp_all add: four_sets_def five_sets_def diode4_def diode4_drained_def replicate_5
        replicate_3)
  note c = C6_no_alert_without_overwrite [where sz = 4 and al = "Some log_alert"
      and ?d0.0 = diode4 and ?w0.0 = "[]" and ops = "four_sets @ replicate 5 OpTryNext"
      and d = "\<lparr>buffer = [None, None, None, None], writeIndex = 4, readIndex = 4,
                 alerter = log_alert\<rparr>"
      and w = "[]"
      and outs = "[(Some 10, True), (Some 11, True), (Some 12, True), (Some 13, True), (None, False)]"
      and ?ops0.0 = "five_sets @ replicate 5 OpTryNext" and e = diode4_drained and ?w1.0 = "[1]"
      and ?outs0.0 = "[(Some 11, True), (Some 12, True), (Some 13, True), (Some 14, True), (None, False)]"
      and ?ops1.0 = "[OpSet (Some 15), OpSet (Some 16)] @ replicate 3 OpTryNext"
      and d' = "\<lparr>buffer = [None, None, None, None], writeIndex = 7, readIndex = 7,
                  alerter = log_alert\<rparr>"
      and w' = "[1]" and ?outs1.0 = "[(Some 15, True), (Some 16, True), (None, False)]"]
  from c h NewOneToOne_diode4 run_four_sets_drain run_five_sets_drain run_after_drain
  show ?thesis by blast
qed

text \<open>
  With capacity 1, after \<open>2 ^ 64 - 1\<close> rounds of one \<^verbatim>\<open>Set\<close> and one \<^verbatim>\<open>TryNext\<close> everything
  written has been read and both cursors are \<open>2 ^ 64 - 1\<close>. The next \<^verbatim>\<open>TryNext\<close>, with no
  \<^verbatim>\<open>Set\<close> in between, finds \<^verbatim>\<open>readIndex + 1\<close> wrapped to 0, below \<^verbatim>\<open>writeIndex\<close>, and
  calls the alerter with \<open>-1\<close>.
\<close>

theorem C6_counterexample:
  "NewOneToOne (2 ^ 45) 1 (Some log_alert) = Inr (one_slot None 0 0) \<and>
   run (concat (replicate (2 ^ 64 - 1) [OpSet (Some 7), OpTryNext])) (one_slot None 0 0) [] =
     Inr (one_slot None (2 ^ 64 - 1) (2 ^ 64 - 1), [], replicate (2 ^ 64 - 1) (Some 7, True)) \<and>
   readIndex (one_slot None (2 ^ 64 - 1) (2 ^ 64 - 1)) =
     writeIndex (one_slot None (2 ^ 64 - 1) (2 ^ 64 - 1)) \<and>
   run [OpTryNext] (one_slot None (2 ^ 64 - 1) (2 ^ 64 - 1)) [] =
     Inr (one_slot None (2 ^ 64 - 1) (2 ^ 64 - 2), [- 1], [(None, False)])"
proof -
  have f1: "readIndex (one_slot None (2 ^ 64 - 1) (2 ^ 64 - 1)) =
     writeIndex (one_slot None (2 ^ 64 - 1) (2 ^ 64 - 1))"
    by (simp add: one_slot_def)
  have f2: "run [OpTryNext] (one_slot None (2 ^ 64 - 1) (2 ^ 64 - 1)) [] =
     Inr (one_slot None (2 ^ 64 - 1) (2 ^ 64 - 2), [- 1], [(None, False)])"
    unfolding run.simps TryNext_max_one_slot by (simp add: log_alert_def)
  from NewOneToOne_one_slot run_rounds_max_one_slot f1 f2 show ?thesis
    by (intro conjI)
qed

subsection \<open>Claim C7\<close>

text \<open>
  C7. On a diode of capacity at least 1, \<^verbatim>\<open>Set\<close> returns without a panic; \<^verbatim>\<open>writeIndex\<close> is
  one more; the slot at the old \<^verbatim>\<open>writeIndex\<close> modulo the capacity, which is inside the
  buffer, holds the new bucket with the value and the old \<^verbatim>\<open>writeIndex\<close> as its \<^verbatim>\<open>seq\<close>,
  whatever it held before; every other slot, the length of the buffer, \<^verbatim>\<open>readIndex\<close> and
  the alerter are as before.
\<close>

theorem C7_Set_frame:
  assumes "len_buffer d \<noteq> 0"
  shows "\<exists>d'. Set d v = Inr d' \<and>
           writeIndex d' = writeIndex d + 1 \<and> readIndex d' = readIndex d \<and>
           alerter d' = alerter d \<and> length (buffer d') = length (buffer d) \<and>
           unat (writeIndex d mod len_buffer d) < length (buffer d) \<and>
           buffer d' ! unat (writeIndex d mod len_buffer d) = Some \<lparr>data = v, seq = writeIndex d\<rparr> \<and>
           (\<forall>i. i \<noteq> unat (writeIndex d mod len_buffer d) \<longrightarrow> buffer d' ! i = buffer d ! i)"
  using Set_Inr [OF assms, of v] idx_in_bounds [OF assms, of "writeIndex d"]
  by simp

theorem C7_witness:
  "\<exists>d'. Set diode4_full (Some 15) = Inr d' \<and>
           writeIndex d' = 6 \<and> readIndex d' = readIndex diode4_full \<and>
           alerter d' = alerter diode4_full \<and> length (buffer d') = 4 \<and>
           buffer d' ! 1 = Some \<lparr>data = Some 15, seq = 5\<rparr> \<and>
           (\<forall>i. i \<noteq> 1 \<longrightarrow> buffer d' ! i = buffer diode4_full ! i)"
proof -
  have l: "len_buffer diode4_full \<noteq> 0" "unat (writeIndex diode4_full mod len_buffer diode4_full) = 1"
    by (simp_all add: len_buffer_def diode4_full_def)
  from C7_Set_frame [OF l(1), of "Some 15"] show ?thesis
    unfolding l(2) by (auto simp: diode4_full_def)
qed

subsection \<open>Claim C8\<close>

text \<open>
  C8 (as amended). In every state a \<^verbatim>\<open>TryNext\<close> call makes at most one pass more than
  there are non-nil slots, so at most capacity + 1 passes, and with a non-zero capacity
  it returns without a panic. In every state that calls on a fresh diode reach while the
  number of \<^verbatim>\<open>Set\<close> calls plus the capacity stays below \<open>2 ^ 64\<close> it makes exactly one
  pass: no retry, and never more than \<^verbatim>\<open>writeIndex - readIndex\<close> + 1 passes.
\<close>

theorem C8_TryNext_termination:
  "TryNext_passes e u \<le> occupied (buffer e) + 1 \<and> occupied (buffer e) \<le> length (buffer e) \<and>
   (len_buffer e \<noteq> 0 \<longrightarrow> (\<exists>e' u' res. TryNext e u = Inr (e', u', res))) \<and>
   (NewOneToOne ml sz al = Inr d0 \<and> run ops d0 w0 = Inr (d, w, outs) \<and>
    length (sets_of ops) + length (buffer d0) < 2 ^ 64 \<longrightarrow>
      TryNext_passes d w = 1 \<and> TryNext_passes d w \<le> unat (writeIndex d - readIndex d) + 1)"
proof (intro conjI impI)
  show "TryNext_passes e u \<le> occupied (buffer e) + 1"
    by (rule TryNext_passes_bound)
  show "occupied (buffer e) \<le> length (buffer e)"
    by (rule occupied_le_length)
  show "\<exists>e' u' res. TryNext e u = Inr (e', u', res)" if "len_buffer e \<noteq> 0"
    using TryNext_total [OF that, of u] by blast
next
  assume a: "NewOneToOne ml sz al = Inr d0 \<and> run ops d0 w0 = Inr (d, w, outs) \<and>
    length (sets_of ops) + length (buffer d0) < 2 ^ 64"
  show one: "TryNext_passes d w = 1"
  proof (cases "buffer d0 = []")
    case True
    then have z: "len_buffer d0 = 0" by (simp add: len_buffer_def)
    from a run_zero [OF z] have "d = d0" by blast
    then show ?thesis
      using z by (simp add: TryNext_pass_zero TryNext_passes.simps [of d0 w])
  next
    case False
    from a reachable_diode_inv [OF _ _ _ False] obtain r where
      "diode_inv (length (buffer d0)) (sets_of ops) r d" by blast
    then show ?thesis by (rule TryNext_diode_inv(3))
  qed
  then show "TryNext_passes d w \<le> unat (writeIndex d - readIndex d) + 1"
    by simp
qed

theorem C8_witness:
  "TryNext_passes diode4_full [] \<le> 5 \<and>
   (\<exists>e' u' res. TryNext diode4_full [] = Inr (e', u', res)) \<and>
   TryNext_passes diode4_full [] = 1 \<and> unat (writeIndex diode4_full - readIndex diode4_full) = 5"
proof -
  have l: "length (sets_of five_sets) + length (buffer diode4) < 2 ^ 64"
    by (simp add: five_sets_def diode4_def)
  have o: "occupied (buffer diode4_full) + 1 = 5" "len_buffer diode4_full \<noteq> 0"
    "unat (writeIndex diode4_full - readIndex diode4_full) = 5"
    by (simp_all add: diode4_full_def occupied_def len_buffer_def)
  from C8_TryNext_termination [where e = diode4_full and u = "[]" and sz = 4
      and al = "Some log_alert" and ?d0.0 = diode4 and ops = five_sets and ?w0.0 = "[]"
      and d = diode4_full and w = "[]" and outs = "[]"]
    NewOneToOne_diode4 run_five_sets [of "[]"] l o
  show ?thesis by simp
qed

text \<open>
  On the fresh diode of capacity 4 the cursors are equal and \<^verbatim>\<open>TryNext\<close> makes one pass,
  not zero. With capacity 1 and \<open>2 ^ 64\<close> writes the cursors are equal again and
  \<^verbatim>\<open>TryNext\<close> makes two passes.
\<close>

theorem C8_counterexample:
  "NewOneToOne (2 ^ 45) 4 (Some log_alert) = Inr diode4 \<and>
   TryNext_passes diode4 [] = 1 \<and> unat (writeIndex diode4 - readIndex diode4) = 0 \<and>
   NewOneToOne (2 ^ 45) 1 (Some log_alert) = Inr (one_slot None 0 0) \<and>
   run (replicate (2 ^ 64) (OpSet (Some 7))) (one_slot None 0 0) [] =
     Inr (one_slot (Some \<lparr>data = Some 7, seq = 2 ^ 64 - 1\<rparr>) 0 0, [], []) \<and>
   TryNext_passes (one_slot (Some \<lparr>data = Some 7, seq = 2 ^ 64 - 1\<rparr>) 0 0) [] = 2 \<and>
   unat (writeIndex (one_slot (Some \<lparr>data = Some 7, seq = 2 ^ 64 - 1\<rparr>) 0 0)
         - readIndex (one_slot (Some \<lparr>data = Some 7, seq = 2 ^ 64 - 1\<rparr>) 0 0)) = 0"
proof -
  have f1: "TryNext_passes diode4 [] = 1"
    by (subst TryNext_passes.simps) (simp add: diode4_def diode_eval)
  have f2: "unat (writeIndex diode4 - readIndex diode4) = 0"
    by (simp add: diode4_def)
  have f3: "unat (writeIndex (one_slot (Some \<lparr>data = Some 7, seq = 2 ^ 64 - 1\<rparr>) 0 0)
         - readIndex (one_slot (Some \<lparr>data = Some 7, seq = 2 ^ 64 - 1\<rparr>) 0 0)) = 0"
    by (simp add: one_slot_def)
  from NewOneToOne_diode4 f1 f2 NewOneToOne_one_slot run_wrapped_one_slot
    TryNext_passes_wrapped_one_slot f3
  show ?thesis by (intro conjI)
qed

subsection \<open>Claim C9\<close>

text \<open>
  C9. \<^verbatim>\<open>NewOneToOne\<close> checks nothing itself: it returns a diode with \<^verbatim>\<open>size\<close> slots for every
  size from 0 up to the largest length that \<^verbatim>\<open>make\<close> allocates, and otherwise fails with
  the panic of \<^verbatim>\<open>make\<close>. Size 0 gives a diode with no slot, on which the first \<^verbatim>\<open>Set\<close> and
  the first \<^verbatim>\<open>TryNext\<close> panic with a division by zero. On a diode built with size at least
  1 no sequence of calls panics, the length of the buffer never changes, and any cursor
  taken modulo the length is an index inside the buffer.
\<close>

theorem C9_zero_capacity_unguarded:
  "(0 \<le> sint sz \<and> nat (sint sz) \<le> ml \<longrightarrow>
      (\<exists>d :: ('a, 'i::len word, 'w) OneToOne.
         NewOneToOne ml sz al = Inr d \<and> length (buffer d) = nat (sint sz))) \<and>
   (sint s < 0 \<or> m < nat (sint s) \<longrightarrow>
      NewOneToOne m s al = (Inl MakeSliceLenOutOfRange :: panic + ('a, 'i::len word, 'w) OneToOne)) \<and>
   (\<exists>d0 :: ('a, 'i::len word, 'w) OneToOne.
      NewOneToOne ml 0 al = Inr d0 \<and> buffer d0 = [] \<and>
      Set d0 v = Inl DivideByZero \<and> TryNext d0 w = Inl DivideByZero) \<and>
   (NewOneToOne ml sz al = Inr (d1 :: ('a, 'i::len word, 'w) OneToOne) \<and> 1 \<le> sint sz \<longrightarrow>
      (\<exists>d w' outs. run ops d1 w = Inr (d, w', outs) \<and> length (buffer d) = nat (sint sz) \<and>
         len_buffer d \<noteq> 0 \<and> (\<forall>x. unat (x mod len_buffer d) < length (buffer d))))"
proof -
  have p1: "\<exists>d :: ('a, 'i::len word, 'w) OneToOne.
      NewOneToOne ml sz al = Inr d \<and> length (buffer d) = nat (sint sz)"
    if "0 \<le> sint sz \<and> nat (sint sz) \<le> ml"
    using that by (simp add: NewOneToOne_def Let_def)
  have p2: "NewOneToOne m s al = (Inl MakeSliceLenOutOfRange :: panic + ('a, 'i::len word, 'w) OneToOne)"
    if "sint s < 0 \<or> m < nat (sint s)"
    using that by (simp add: NewOneToOne_def Let_def)
  have p3: "\<exists>d0 :: ('a, 'i::len word, 'w) OneToOne.
      NewOneToOne ml 0 al = Inr d0 \<and> buffer d0 = [] \<and>
      Set d0 v = Inl DivideByZero \<and> TryNext d0 w = Inl DivideByZero"
  proof -
    obtain d0 :: "('a, 'i::len word, 'w) OneToOne" where n: "NewOneToOne ml 0 al = Inr d0"
      by (simp add: NewOneToOne_def Let_def)
    from NewOneToOne_Inr [OF n] have z: "len_buffer d0 = 0" and b: "buffer d0 = []"
      by simp_all
    from n b Set_zero [OF z, of v] TryNext_zero [OF z, of w] show ?thesis
      by blast
  qed
  have p4: "\<exists>d w' outs. run ops d1 w = Inr (d, w', outs) \<and> length (buffer d) = nat (sint sz) \<and>
         len_buffer d \<noteq> 0 \<and> (\<forall>x. unat (x mod len_buffer d) < length (buffer d))"
    if a: "NewOneToOne ml sz al = Inr d1 \<and> 1 \<le> sint sz"
  proof -
    from a have n: "NewOneToOne ml sz al = Inr d1" and p: "1 \<le> sint sz" by simp_all
    have "sz \<noteq> 0" using p by auto
    with NewOneToOne_Inr [OF n] have l: "len_buffer d1 \<noteq> 0" "length (buffer d1) = nat (sint sz)"
      by simp_all
    from run_total [OF l(1), of ops w] obtain d w' outs where
      r: "run ops d1 w = Inr (d, w', outs)" "length (buffer d) = length (buffer d1)"
      by blast
    then have "len_buffer d \<noteq> 0"
      using l by (simp add: len_buffer_def)
    then show ?thesis
      using r l idx_in_bounds by metis
  qed
  from p1 p2 p3 p4 show ?thesis by blast
qed

theorem C9_witness:
  "NewOneToOne (2 ^ 45) 4 (Some log_alert) = Inr diode4 \<and> length (buffer diode4) = 4 \<and>
   NewOneToOne (2 ^ 45) (2 ^ 62) (Some log_alert) =
     (Inl MakeSliceLenOutOfRange :: panic + (nat, 64 word, int list) OneToOne) \<and>
   NewOneToOne (2 ^ 45) 0 (Some log_alert) = Inr diode0 \<and> buffer diode0 = [] \<and>
   Set diode0 (Some 10) = Inl DivideByZero \<and> TryNext diode0 [] = Inl DivideByZero \<and>
   (\<exists>d w' outs. run (five_sets @ [OpTryNext, OpTryNext]) diode4 [] = Inr (d, w', outs) \<and>
      length (buffer d) = 4 \<and> len_buffer d \<noteq> 0 \<and>
      (\<forall>x. unat (x mod len_buffer d) < length (buffer d)))"
proof -
  have h: "0 \<le> sint (4 :: 64 word)" "nat (sint (4 :: 64 word)) \<le> 2 ^ 45"
    "nat (sint (4 :: 64 word)) = 4" "1 \<le> sint (4 :: 64 word)"
    "(2 :: nat) ^ 45 < nat (sint (2 ^ 62 :: 64 word))"
    by simp_all
  note c = C9_zero_capacity_unguarded [where sz = 4 and ml = "2 ^ 45" and al = "Some log_alert"
      and s = "2 ^ 62" and m = "2 ^ 45" and v = "Some 10" and w = "[]" and ?d1.0 = diode4
      and ops = "five_sets @ [OpTryNext, OpTryNext]"]
  from c h(5) have big: "NewOneToOne (2 ^ 45) (2 ^ 62) (Some log_alert) =
     (Inl MakeSliceLenOutOfRange :: panic + (nat, 64 word, int list) OneToOne)"
    by blast
  from c NewOneToOne_diode0 have zero: "buffer diode0 = [] \<and>
      Set diode0 (Some 10) = Inl DivideByZero \<and> TryNext diode0 [] = Inl DivideByZero"
    by simp
  from c NewOneToOne_diode4 h(3,4) have run: "\<exists>d w' outs.
      run (five_sets @ [OpTryNext, OpTryNext]) diode4 [] = Inr (d, w', outs) \<and>
      length (buffer d) = 4 \<and> len_buffer d \<noteq> 0 \<and>
      (\<forall>x. unat (x mod len_buffer d) < length (buffer d))"
    by simp
  have "length (buffer diode4) = 4" by (simp add: diode4_def)
  with NewOneToOne_diode4 NewOneToOne_diode0 big zero run show ?thesis
    by blast
qed

subsection \<open>Claim C10\<close>

text \<open>
  C10 (as amended). In every state that whole calls on a fresh diode reach while the
  number of \<^verbatim>\<open>Set\<close> calls plus the capacity stays below \<open>2 ^ 64\<close>: a non-nil bucket
  swapped out of its slot after the catch-up has \<^verbatim>\<open>seq = readIndex\<close>, no pass of the loop
  drops a bucket and goes round again, and a \<^verbatim>\<open>TryNext\<close> call makes exactly one pass (one
  catch-up check, one swap).
\<close>

theorem C10_stale_branch_unreachable:
  assumes "NewOneToOne ml sz al = Inr d0" "run ops d0 w0 = Inr (d, w, outs)"
    "length (sets_of ops) + length (buffer d0) < 2 ^ 64"
  shows "(\<forall>d1 u1 b. len_buffer d \<noteq> 0 \<and> catch_up d u = (d1, u1) \<and>
            buffer d1 ! unat (readIndex d1 mod len_buffer d1) = Some b \<longrightarrow> seq b = readIndex d1) \<and>
         (\<forall>d' u'. TryNext_pass d u \<noteq> Inr (Again d' u')) \<and>
         TryNext_passes d u = 1"
proof (cases "buffer d0 = []")
  case True
  then have z: "len_buffer d0 = 0" by (simp add: len_buffer_def)
  from run_zero [OF z assms(2)] have "d = d0" by simp
  then show ?thesis
    using z by (simp add: TryNext_pass_zero TryNext_passes.simps [of d0 u])
next
  case False
  from reachable_diode_inv [OF assms False] obtain r where
    i: "diode_inv (length (buffer d0)) (sets_of ops) r d" by blast
  have again: "TryNext_pass d u \<noteq> Inr (Again d' u')" for d' u'
    by (rule TryNext_pass_diode_inv [OF i])
  have "seq b = readIndex d1"
    if "len_buffer d \<noteq> 0" "catch_up d u = (d1, u1)"
      "buffer d1 ! unat (readIndex d1 mod len_buffer d1) = Some b" for d1 u1 b
    using TryNext_pass_cases [OF that(1,2)] that(3) again by (auto split: if_splits)
  then show ?thesis
    using again TryNext_diode_inv(3) [OF i] by blast
qed

theorem C10_witness:
  "catch_up diode4_full [] = (diode4_full\<lparr>readIndex := 1\<rparr>, [1]) \<and>
   buffer diode4_full ! 1 = Some \<lparr>data = Some 11, seq = 1\<rparr> \<and>
   (\<forall>d' u'. TryNext_pass diode4_full [] \<noteq> Inr (Again d' u')) \<and>
   TryNext_passes diode4_full [] = 1"
proof -
  have l: "length (sets_of five_sets) + length (buffer diode4) < 2 ^ 64"
    by (simp add: five_sets_def diode4_def)
  have "catch_up diode4_full [] = (diode4_full\<lparr>readIndex := 1\<rparr>, [1])"
    "buffer diode4_full ! 1 = Some \<lparr>data = Some 11, seq = 1\<rparr>"
    by (simp_all add: diode4_full_def diode_eval)
  with C10_stale_branch_unreachable [OF NewOneToOne_diode4 run_five_sets [of "[]"] l, of "[]"]
  show ?thesis by blast
qed

text \<open>
  With capacity 1, \<open>2 ^ 64\<close> writes and no read: both cursors are 0, the slot holds the
  bucket of the last write, whose \<^verbatim>\<open>seq\<close> is \<open>2 ^ 64 - 1\<close>; \<^verbatim>\<open>TryNext\<close> drops it and goes
  round a second time.
\<close>

theorem C10_counterexample:
  "NewOneToOne (2 ^ 45) 1 (Some log_alert) = Inr (one_slot None 0 0) \<and>
   run (replicate (2 ^ 64) (OpSet (Some 7))) (one_slot None 0 0) [] =
     Inr (one_slot (Some \<lparr>data = Some 7, seq = 2 ^ 64 - 1\<rparr>) 0 0, [], []) \<and>
   TryNext_pass (one_slot (Some \<lparr>data = Some 7, seq = 2 ^ 64 - 1\<rparr>) 0 0) [] =
     Inr (Again (one_slot None 0 1) []) \<and>
   TryNext_passes (one_slot (Some \<lparr>data = Some 7, seq = 2 ^ 64 - 1\<rparr>) 0 0) [] = 2"
  using NewOneToOne_one_slot run_wrapped_one_slot TryNext_pass_wrapped_one_slot
    TryNext_passes_wrapped_one_slot
  by (intro conjI)

end
